theory Spec2Isabelle
  imports Complex_Main "HOL-Library.Word"
begin

section \<open>JavaScript numbers\<close>

text \<open>
  Every quantity of the program is a JavaScript number. The model keeps the three special
  values of that type, because the program reaches them from ordinary inputs (\<open>0 / 0\<close>
  for an empty list of points, \<open>Math.pow(0, -1)\<close>, the initial \<open>minDist = Infinity\<close>) and
  its behaviour there is what several properties are about. A finite number is a real:
  arithmetic on finite numbers is exact, so rounding to 53 bits, overflow of finite
  results and the sign of zero are not represented (a zero divisor counts as \<open>+0\<close>).
\<close>

datatype number = Fin real | PInf | NInf | NaN

instantiation number :: "{plus, uminus, times, divide, ord}"
begin

fun uminus_number :: "number \<Rightarrow> number" where
  "uminus_number (Fin a) = Fin (- a)"
| "uminus_number PInf = NInf"
| "uminus_number NInf = PInf"
| "uminus_number NaN = NaN"

fun plus_number :: "number \<Rightarrow> number \<Rightarrow> number" where
  "plus_number (Fin a) (Fin b) = Fin (a + b)"
| "plus_number NaN _ = NaN"
| "plus_number _ NaN = NaN"
| "plus_number PInf NInf = NaN"
| "plus_number NInf PInf = NaN"
| "plus_number PInf _ = PInf"
| "plus_number _ PInf = PInf"
| "plus_number NInf _ = NInf"
| "plus_number _ NInf = NInf"

fun times_number :: "number \<Rightarrow> number \<Rightarrow> number" where
  "times_number (Fin a) (Fin b) = Fin (a * b)"
| "times_number NaN _ = NaN"
| "times_number _ NaN = NaN"
| "times_number PInf (Fin b) = (if b = 0 then NaN else if 0 < b then PInf else NInf)"
| "times_number NInf (Fin b) = (if b = 0 then NaN else if 0 < b then NInf else PInf)"
| "times_number (Fin a) PInf = (if a = 0 then NaN else if 0 < a then PInf else NInf)"
| "times_number (Fin a) NInf = (if a = 0 then NaN else if 0 < a then NInf else PInf)"
| "times_number PInf PInf = PInf"
| "times_number PInf NInf = NInf"
| "times_number NInf PInf = NInf"
| "times_number NInf NInf = PInf"

fun divide_number :: "number \<Rightarrow> number \<Rightarrow> number" where
  "divide_number (Fin a) (Fin b) =
     (if b \<noteq> 0 then Fin (a / b)
      else if a = 0 then NaN else if 0 < a then PInf else NInf)"
| "divide_number NaN _ = NaN"
| "divide_number _ NaN = NaN"
| "divide_number (Fin a) PInf = Fin 0"
| "divide_number (Fin a) NInf = Fin 0"
| "divide_number PInf (Fin b) = (if 0 \<le> b then PInf else NInf)"
| "divide_number NInf (Fin b) = (if 0 \<le> b then NInf else PInf)"
| "divide_number PInf PInf = NaN"
| "divide_number PInf NInf = NaN"
| "divide_number NInf PInf = NaN"
| "divide_number NInf NInf = NaN"

fun less_number :: "number \<Rightarrow> number \<Rightarrow> bool" where
  "less_number (Fin a) (Fin b) = (a < b)"
| "less_number NaN _ = False"
| "less_number _ NaN = False"
| "less_number _ NInf = False"
| "less_number PInf _ = False"
| "less_number NInf _ = True"
| "less_number _ PInf = True"

fun less_eq_number :: "number \<Rightarrow> number \<Rightarrow> bool" where
  "less_eq_number (Fin a) (Fin b) = (a \<le> b)"
| "less_eq_number NaN _ = False"
| "less_eq_number _ NaN = False"
| "less_eq_number NInf _ = True"
| "less_eq_number _ PInf = True"
| "less_eq_number _ NInf = False"
| "less_eq_number PInf _ = False"

instance ..

end

instantiation number :: "{minus, inverse}"
begin

definition minus_number :: "number \<Rightarrow> number \<Rightarrow> number" where
  "minus_number a b = a + (- b)"

definition inverse_number :: "number \<Rightarrow> number" where
  "inverse_number a = divide (Fin 1) a"

instance ..

end

text \<open>\<open>a === b\<close> on numbers: \<open>NaN\<close> equals nothing.\<close>

definition strict_eq :: "number \<Rightarrow> number \<Rightarrow> bool" where
  "strict_eq a b = (a = b \<and> a \<noteq> NaN)"

text \<open>Truthiness of a number, and \<open>a || b\<close>: zero and \<open>NaN\<close> are falsy.\<close>

fun truthy :: "number \<Rightarrow> bool" where
  "truthy (Fin a) = (a \<noteq> 0)"
| "truthy NaN = False"
| "truthy PInf = True"
| "truthy NInf = True"

definition or_else :: "number \<Rightarrow> number \<Rightarrow> number" where
  "or_else a b = (if truthy a then a else b)"

subsection \<open>The functions of \<open>Math\<close>\<close>

definition Math_PI :: number where
  "Math_PI = Fin pi"

fun Math_min :: "number \<Rightarrow> number \<Rightarrow> number" where
  "Math_min (Fin a) (Fin b) = Fin (min a b)"
| "Math_min NaN _ = NaN"
| "Math_min _ NaN = NaN"
| "Math_min NInf _ = NInf"
| "Math_min _ NInf = NInf"
| "Math_min PInf b = b"
| "Math_min a PInf = a"

fun Math_max :: "number \<Rightarrow> number \<Rightarrow> number" where
  "Math_max (Fin a) (Fin b) = Fin (max a b)"
| "Math_max NaN _ = NaN"
| "Math_max _ NaN = NaN"
| "Math_max PInf _ = PInf"
| "Math_max _ PInf = PInf"
| "Math_max NInf b = b"
| "Math_max a NInf = a"

text \<open>\<open>Math.round\<close> rounds to the nearest integer, a tie towards \<open>+\<infinity>\<close>: it is
  \<open>\<lfloor>a + 1/2\<rfloor>\<close>, which is what \<^const>\<open>round\<close> is.\<close>

fun Math_round :: "number \<Rightarrow> number" where
  "Math_round (Fin a) = Fin (of_int (round a))"
| "Math_round PInf = PInf"
| "Math_round NInf = NInf"
| "Math_round NaN = NaN"

fun Math_ceil :: "number \<Rightarrow> number" where
  "Math_ceil (Fin a) = Fin (of_int \<lceil>a\<rceil>)"
| "Math_ceil PInf = PInf"
| "Math_ceil NInf = NInf"
| "Math_ceil NaN = NaN"

fun Math_sqrt :: "number \<Rightarrow> number" where
  "Math_sqrt (Fin a) = (if 0 \<le> a then Fin (sqrt a) else NaN)"
| "Math_sqrt PInf = PInf"
| "Math_sqrt NInf = NaN"
| "Math_sqrt NaN = NaN"

fun Math_sin :: "number \<Rightarrow> number" where
  "Math_sin (Fin a) = Fin (sin a)"
| "Math_sin _ = NaN"

fun Math_cos :: "number \<Rightarrow> number" where
  "Math_cos (Fin a) = Fin (cos a)"
| "Math_cos _ = NaN"

text \<open>The tangent has poles at the odd multiples of \<open>\<pi>/2\<close>, which no floating-point
  argument hits; the model gives \<open>NaN\<close> there, and no result below depends on it.\<close>

fun Math_tan :: "number \<Rightarrow> number" where
  "Math_tan (Fin a) = (if cos a = 0 then NaN else Fin (tan a))"
| "Math_tan _ = NaN"

fun Math_log :: "number \<Rightarrow> number" where
  "Math_log (Fin a) = (if 0 < a then Fin (ln a) else if a = 0 then NInf else NaN)"
| "Math_log PInf = PInf"
| "Math_log NInf = NaN"
| "Math_log NaN = NaN"

fun Math_exp :: "number \<Rightarrow> number" where
  "Math_exp (Fin a) = Fin (exp a)"
| "Math_exp PInf = PInf"
| "Math_exp NInf = Fin 0"
| "Math_exp NaN = NaN"

fun Math_atan :: "number \<Rightarrow> number" where
  "Math_atan (Fin a) = Fin (arctan a)"
| "Math_atan PInf = Fin (pi / 2)"
| "Math_atan NInf = Fin (- pi / 2)"
| "Math_atan NaN = NaN"

fun Math_atan2 :: "number \<Rightarrow> number \<Rightarrow> number" where
  "Math_atan2 (Fin y) (Fin x) =
     (if 0 < x then Fin (arctan (y / x))
      else if x < 0 then (if 0 \<le> y then Fin (arctan (y / x) + pi) else Fin (arctan (y / x) - pi))
      else if 0 < y then Fin (pi / 2) else if y < 0 then Fin (- pi / 2) else Fin 0)"
| "Math_atan2 NaN _ = NaN"
| "Math_atan2 _ NaN = NaN"
| "Math_atan2 (Fin y) PInf = Fin 0"
| "Math_atan2 (Fin y) NInf = (if 0 \<le> y then Fin pi else Fin (- pi))"
| "Math_atan2 PInf (Fin x) = Fin (pi / 2)"
| "Math_atan2 NInf (Fin x) = Fin (- pi / 2)"
| "Math_atan2 PInf PInf = Fin (pi / 4)"
| "Math_atan2 PInf NInf = Fin (3 * pi / 4)"
| "Math_atan2 NInf PInf = Fin (- pi / 4)"
| "Math_atan2 NInf NInf = Fin (- 3 * pi / 4)"

text \<open>\<open>Math.pow(x, y)\<close>, also written \<open>x ** y\<close>. An exponent of zero gives 1 whatever the
  base; a zero base with a negative exponent gives \<open>Infinity\<close>; a negative base has a
  power only for an integer exponent. A finite power of a finite base is exact: it does
  not overflow to \<open>Infinity\<close> or underflow to 0.\<close>

definition is_integer :: "real \<Rightarrow> bool" where
  "is_integer e = (e = of_int \<lfloor>e\<rfloor>)"

fun Math_pow :: "number \<Rightarrow> number \<Rightarrow> number" where
  "Math_pow x NaN = NaN"
| "Math_pow x (Fin e) =
     (if e = 0 then Fin 1
      else case x of
        NaN \<Rightarrow> NaN
      | PInf \<Rightarrow> (if 0 < e then PInf else Fin 0)
      | NInf \<Rightarrow> (if 0 < e then (if is_integer e \<and> odd \<lfloor>e\<rfloor> then NInf else PInf) else Fin 0)
      | Fin b \<Rightarrow>
          (if b = 0 then (if 0 < e then Fin 0 else PInf)
           else if 0 < b then Fin (b powr e)
           else if is_integer e then Fin (b powi \<lfloor>e\<rfloor>) else NaN))"
| "Math_pow x PInf =
     (case x of
        NaN \<Rightarrow> NaN
      | PInf \<Rightarrow> PInf
      | NInf \<Rightarrow> PInf
      | Fin b \<Rightarrow> (if 1 < \<bar>b\<bar> then PInf else if \<bar>b\<bar> = 1 then NaN else Fin 0))"
| "Math_pow x NInf =
     (case x of
        NaN \<Rightarrow> NaN
      | PInf \<Rightarrow> Fin 0
      | NInf \<Rightarrow> Fin 0
      | Fin b \<Rightarrow> (if 1 < \<bar>b\<bar> then Fin 0 else if \<bar>b\<bar> = 1 then NaN else PInf))"

section \<open>Errors, arrays and loops\<close>

text \<open>The only exception the program can raise is the \<open>TypeError\<close> of reading a property
  of \<open>undefined\<close>; it has no error values of its own.\<close>

datatype error = TypeError

text \<open>\<open>arr[k]\<close> for an integer \<open>k\<close> and for a number: \<open>undefined\<close> outside the array.\<close>

definition at_index :: "'a list \<Rightarrow> int \<Rightarrow> 'a option" where
  "at_index xs k = (if 0 \<le> k \<and> k < int (length xs) then Some (xs ! nat k) else None)"

fun at_number :: "'a list \<Rightarrow> number \<Rightarrow> 'a option" where
  "at_number xs (Fin a) = (if is_integer a then at_index xs \<lfloor>a\<rfloor> else None)"
| "at_number xs _ = None"

text \<open>\<open>xs.findIndex(P)\<close>: the first index whose element satisfies \<open>P\<close>, or \<open>-1\<close>.\<close>

fun findIndex :: "('a \<Rightarrow> bool) \<Rightarrow> 'a list \<Rightarrow> int" where
  "findIndex P [] = - 1"
| "findIndex P (x # xs) =
     (if P x then 0 else (let k = findIndex P xs in if k = - 1 then - 1 else k + 1))"

text \<open>
  \<open>for (let i = start; i < n; i += step) body\<close>, over a state \<open>s\<close> that the body updates.
  The body may throw (\<open>Inl\<close>), and a loop whose bound is \<open>Infinity\<close> or whose step is 0
  never returns: the result is then \<open>None\<close>.
\<close>

partial_function (option) forLoop ::
  "nat \<Rightarrow> number \<Rightarrow> nat \<Rightarrow> (nat \<Rightarrow> 's \<Rightarrow> (error + 's) option) \<Rightarrow> 's \<Rightarrow> (error + 's) option"
where
  "forLoop i n step body s =
     (if Fin (real i) < n then
        Option.bind (body i s)
          (\<lambda>res. case res of Inl e \<Rightarrow> Some (Inl e) | Inr s' \<Rightarrow> forLoop (i + step) n step body s')
      else Some (Inr s))"

section \<open>Geo-projection and distance\<close>

record latlng =
  lat :: number
  lng :: number

record bounds =
  minLat :: number
  minLng :: number
  maxLat :: number
  maxLng :: number

definition latToMerc :: "number \<Rightarrow> number" where
  "latToMerc la =
     (let rad = (la * Math_PI) / Fin 180
      in Math_log (Math_tan (Math_PI / Fin 4 + rad / Fin 2)))"

definition mercToLat :: "number \<Rightarrow> number" where
  "mercToLat mercY =
     (Fin 2 * Math_atan (Math_exp mercY) - Math_PI / Fin 2) * (Fin 180 / Math_PI)"

definition pixelToLatLng :: "number \<Rightarrow> number \<Rightarrow> number \<Rightarrow> number \<Rightarrow> bounds \<Rightarrow> latlng" where
  "pixelToLatLng x y width height bnds =
     (let minMerc = latToMerc (minLat bnds);
          maxMerc = latToMerc (maxLat bnds);
          tY = y / height;
          mercY = minMerc + tY * (maxMerc - minMerc);
          la = mercToLat mercY;
          tX = x / width;
          lo = minLng bnds + tX * (maxLng bnds - minLng bnds)
      in \<lparr>lat = la, lng = lo\<rparr>)"

definition toRad :: "number \<Rightarrow> number" where
  "toRad deg = (deg * Math_PI) / Fin 180"

definition haversine :: "latlng \<Rightarrow> latlng \<Rightarrow> number" where
  "haversine a b =
     (let R = Fin 6371000;
          dLat = toRad (lat b - lat a);
          dLng = toRad (lng b - lng a);
          lat1 = toRad (lat a);
          lat2 = toRad (lat b);
          aVal = Math_pow (Math_sin (dLat / Fin 2)) (Fin 2)
                 + Math_cos lat1 * Math_cos lat2 * Math_pow (Math_sin (dLng / Fin 2)) (Fin 2)
      in R * Fin 2 * Math_atan2 (Math_sqrt aVal) (Math_sqrt (Fin 1 - aVal)))"

section \<open>Gradient lookup table\<close>

text \<open>
  A gradient specification is an object from stop positions to colour strings. The colour
  parser (\<open>tinycolor\<close>) is a library outside the program, so a specification is taken
  with its colours already parsed: an association list from stops to the result of
  \<open>toRgb()\<close>, whose components are integers. The keys of an object are distinct strings,
  but two of them may denote the same number (\<open>'0.5'\<close> and \<open>'0.50'\<close>): the list then holds
  that stop twice, and \<open>gradient[s]\<close> finds the pair that comes first.
  A table entry is the array \<open>[r, g, b]\<close>.
\<close>

record rgb =
  rgb_r :: int
  rgb_g :: int
  rgb_b :: int

type_synonym gradient = "(real \<times> rgb) list"

type_synonym colour = "number \<times> number \<times> number"

text \<open>\<open>tinycolor(gradient[s]).toRgb()\<close>; a missing key parses to black.\<close>

definition colorOf :: "gradient \<Rightarrow> real \<Rightarrow> rgb" where
  "colorOf grd s =
     (case map_of grd s of Some c \<Rightarrow> c | None \<Rightarrow> \<lparr>rgb_r = 0, rgb_g = 0, rgb_b = 0\<rparr>)"

text \<open>The body of the loop over \<open>i\<close>: the entry pushed for index \<open>i\<close>. \<open>stops\<close> and
  \<open>colors\<close> have the same length, so \<open>c0.r\<close> throws exactly when an index is outside
  both.\<close>

definition lookupEntry :: "real list \<Rightarrow> rgb list \<Rightarrow> nat \<Rightarrow> error + colour" where
  "lookupEntry stops colors i =
     (let t = Fin (real i) / Fin 255;
          found = findIndex (\<lambda>s. t \<le> Fin s) stops;
          idx = (if found = - 1 then int (length stops) - 1 else found)
      in if idx = 0 then
           (case at_index colors 0 of
              None \<Rightarrow> Inl TypeError
            | Some c \<Rightarrow>
                Inr (Fin (of_int (rgb_r c)), Fin (of_int (rgb_g c)), Fin (of_int (rgb_b c))))
         else
           (case (at_index stops (idx - 1), at_index stops idx,
                  at_index colors (idx - 1), at_index colors idx) of
              (Some s0, Some s1, Some c0, Some c1) \<Rightarrow>
                (let f = (t - Fin s0) / (Fin s1 - Fin s0);
                     mix = (\<lambda>a b. Math_round (Fin (of_int a) + (Fin (of_int b) - Fin (of_int a)) * f))
                 in Inr (mix (rgb_r c0) (rgb_r c1), mix (rgb_g c0) (rgb_g c1),
                         mix (rgb_b c0) (rgb_b c1)))
            | _ \<Rightarrow> Inl TypeError))"

text \<open>\<open>for (let i = 0; i < 256; i++) lookup.push(...)\<close>: the entries in order, or the
  first exception.\<close>

fun pushAll :: "(nat \<Rightarrow> error + 'a) \<Rightarrow> nat list \<Rightarrow> error + 'a list" where
  "pushAll f [] = Inr []"
| "pushAll f (i # is) =
     (case f i of
        Inl e \<Rightarrow> Inl e
      | Inr v \<Rightarrow> (case pushAll f is of Inl e \<Rightarrow> Inl e | Inr vs \<Rightarrow> Inr (v # vs)))"

definition createGradientLookup :: "gradient \<Rightarrow> error + colour list" where
  "createGradientLookup grd =
     (let stops = sort (map fst grd);
          colors = map (colorOf grd) stops
      in pushAll (lookupEntry stops colors) [0..<256])"

section \<open>The raster engine\<close>

text \<open>
  A sample point is the array \<open>[lat, lng, value]\<close>. The options are the fields the two
  functions destructure; \<open>None\<close> is an omitted field, which takes the default. Pixel counts
  are natural numbers. \<open>opt_fadeDistance\<close> stands for a property of that name on the
  object a caller passes: neither function reads it.
  The image is its pixel buffer \<open>png.data\<close>, four bytes per pixel; the PNG encoder
  applied to it at the end is a library outside the program.
\<close>

type_synonym point = "number \<times> number \<times> number"

type_synonym byte = "8 word"

record options =
  opt_width :: nat
  opt_height :: nat
  opt_cellSize :: "nat option"
  opt_max :: "number option"
  opt_gradient :: gradient
  opt_bounds :: bounds
  opt_exp :: "number option"
  opt_fadeDistance :: "number option"

text \<open>A destructured field with a default, \<open>{ name = dflt }\<close>: the default stands in
  for an omitted field only.\<close>

definition orDefault :: "'a option \<Rightarrow> 'a \<Rightarrow> 'a" where
  "orDefault field dflt = (case field of None \<Rightarrow> dflt | Some v \<Rightarrow> v)"

text \<open>Storing a number into a byte array: truncated towards zero and reduced modulo 256;
  \<open>NaN\<close> and the infinities store 0.\<close>

fun toUint8 :: "number \<Rightarrow> byte" where
  "toUint8 (Fin a) = word_of_int (if 0 \<le> a then \<lfloor>a\<rfloor> else \<lceil>a\<rceil>)"
| "toUint8 _ = 0"

text \<open>The four stores \<open>png.data[idx] = c[0]; ...; png.data[idx + 3] = a\<close>. A store outside
  a byte array does nothing.\<close>

definition writePixel :: "byte list \<Rightarrow> nat \<Rightarrow> colour \<Rightarrow> number \<Rightarrow> byte list" where
  "writePixel data idx c a =
     (case c of (c0, c1, c2) \<Rightarrow>
        data[idx := toUint8 c0, idx + 1 := toUint8 c1, idx + 2 := toUint8 c2,
             idx + 3 := toUint8 a])"

text \<open>\<open>new PNG({ width, height })\<close> allocates a zeroed buffer.\<close>

definition newPNG :: "nat \<Rightarrow> nat \<Rightarrow> byte list" where
  "newPNG width height = replicate (4 * width * height) 0"

subsection \<open>The loop over the sample points\<close>

text \<open>One pass of \<open>for (const pt of points)\<close> on \<open>(numerator, denominator, minDist)\<close>.\<close>

definition idwStep :: "latlng \<Rightarrow> number \<Rightarrow> point \<Rightarrow> number \<times> number \<times> number
    \<Rightarrow> number \<times> number \<times> number" where
  "idwStep latlng ex pt acc =
     (case (pt, acc) of ((p0, p1, p2), (numerator, denominator, minDist)) \<Rightarrow>
        (let dist = haversine latlng \<lparr>lat = p0, lng = p1\<rparr>;
             minDist' = Math_min minDist dist;
             val = p2;
             dist2 = or_else (Math_pow dist ex) (Fin (1 / 10 ^ 6))
         in (numerator + val / dist2, denominator + Fin 1 / dist2, minDist')))"

definition idwSums :: "latlng \<Rightarrow> number \<Rightarrow> point list \<Rightarrow> number \<times> number \<times> number" where
  "idwSums latlng ex points = fold (idwStep latlng ex) points (Fin 0, Fin 0, PInf)"

subsection \<open>\<open>interpolateIDW_directdraw\<close>\<close>

definition FADE_DISTANCE :: number where
  "FADE_DISTANCE = Fin 100000"

text \<open>The prefill of the whole image with \<open>grad[0]\<close>, at \<open>alpha = 1\<close>.\<close>

definition prefill :: "nat \<Rightarrow> nat \<Rightarrow> colour \<Rightarrow> byte list \<Rightarrow> (error + byte list) option" where
  "prefill width height bg data =
     forLoop 0 (Fin (real height)) 1
       (\<lambda>py. forLoop 0 (Fin (real width)) 1
          (\<lambda>px d. let idx = (py * width + px) * 4; alpha = Fin 1
                   in Some (Inr (writePixel d idx bg (Math_round (Fin 255 * alpha))))))
       data"

text \<open>The centre of cell \<open>(i, j)\<close>, projected.\<close>

definition cellCentre :: "nat \<Rightarrow> nat \<Rightarrow> nat \<Rightarrow> bounds \<Rightarrow> nat \<Rightarrow> nat \<Rightarrow> latlng" where
  "cellCentre width height r bnds i j =
     (let cellCen = Fin (real r) / Fin 2;
          x = Fin (real (j * r));
          y = Fin (real (i * r))
      in pixelToLatLng (x + cellCen) (y + cellCen) (Fin (real width)) (Fin (real height)) bnds)"

text \<open>\<open>numerator / denominator\<close>, before the clamp to \<open>max\<close>.\<close>

definition cellValue :: "latlng \<Rightarrow> number \<Rightarrow> point list \<Rightarrow> number" where
  "cellValue latlng ex points =
     (case idwSums latlng ex points of (numerator, denominator, minDist) \<Rightarrow>
        numerator / denominator)"

definition cellMinDist :: "latlng \<Rightarrow> number \<Rightarrow> point list \<Rightarrow> number" where
  "cellMinDist latlng ex points =
     (case idwSums latlng ex points of (numerator, denominator, minDist) \<Rightarrow> minDist)"

definition gradientIndex :: "number \<Rightarrow> number \<Rightarrow> number" where
  "gradientIndex interpolVal mx =
     (if strict_eq mx (Fin 0) then Fin 0 else Math_round ((interpolVal / mx) * Fin 255))"

definition featherAlpha :: "number \<Rightarrow> number" where
  "featherAlpha minDist =
     (if FADE_DISTANCE < minDist
      then Math_max (Fin 0) (Fin 1 - (minDist - FADE_DISTANCE) / FADE_DISTANCE)
      else Fin 1)"

definition blend :: "colour \<Rightarrow> colour \<Rightarrow> number \<Rightarrow> colour" where
  "blend interpColor bg alpha =
     (case (interpColor, bg) of ((c0, c1, c2), (b0, b1, b2)) \<Rightarrow>
        (Math_round (c0 * alpha + b0 * (Fin 1 - alpha)),
         Math_round (c1 * alpha + b1 * (Fin 1 - alpha)),
         Math_round (c2 * alpha + b2 * (Fin 1 - alpha))))"

text \<open>The block fill at the end of the cell body.\<close>

definition fillCell :: "nat \<Rightarrow> nat \<Rightarrow> nat \<Rightarrow> nat \<Rightarrow> nat \<Rightarrow> colour \<Rightarrow> number \<Rightarrow> byte list
    \<Rightarrow> (error + byte list) option" where
  "fillCell width height r x y color alpha data =
     forLoop 0 (Fin (real r)) 1
       (\<lambda>dy. forLoop 0 (Fin (real r)) 1
          (\<lambda>dx d. let px = x + dx; py = y + dy
                   in if px < width \<and> py < height
                      then (let idx = (py * width + px) * 4
                            in Some (Inr (writePixel d idx color (Math_round (Fin 255 * alpha)))))
                      else Some (Inr d)))
       data"

text \<open>The colour and alpha of cell \<open>(i, j)\<close>: the body of the loop over \<open>j\<close> up to the
  fill. \<open>grad[gradientIndex]\<close> is \<open>undefined\<close> outside the table, and reading its
  component 0 throws.\<close>

definition cellColor :: "point list \<Rightarrow> nat \<Rightarrow> nat \<Rightarrow> nat \<Rightarrow> number \<Rightarrow> bounds \<Rightarrow> number
    \<Rightarrow> colour list \<Rightarrow> colour \<Rightarrow> nat \<Rightarrow> nat \<Rightarrow> error + colour \<times> number" where
  "cellColor points width height r mx bnds ex grad bg i j =
     (let latlng = cellCentre width height r bnds i j;
          interpolVal = Math_min (cellValue latlng ex points) mx;
          minDist = cellMinDist latlng ex points;
          alpha = featherAlpha minDist
      in case at_number grad (gradientIndex interpolVal mx) of
           None \<Rightarrow> Inl TypeError
         | Some interpColor \<Rightarrow> Inr (blend interpColor bg alpha, alpha))"

definition directdrawCell :: "point list \<Rightarrow> nat \<Rightarrow> nat \<Rightarrow> nat \<Rightarrow> number \<Rightarrow> bounds \<Rightarrow> number
    \<Rightarrow> colour list \<Rightarrow> colour \<Rightarrow> nat \<Rightarrow> nat \<Rightarrow> byte list \<Rightarrow> (error + byte list) option" where
  "directdrawCell points width height r mx bnds ex grad bg i j data =
     (case cellColor points width height r mx bnds ex grad bg i j of
        Inl e \<Rightarrow> Some (Inl e)
      | Inr (color, alpha) \<Rightarrow> fillCell width height r (j * r) (i * r) color alpha data)"

text \<open>The function: the table, the prefill, then the loops over the rows and columns of
  cells. \<open>grad[0]\<close> is there, the table having 256 entries; were it \<open>undefined\<close>, the
  prefill's \<open>bg[0]\<close> would throw. The result is \<open>None\<close> when the function does not
  return (a cell size of 0 makes the number of cells \<open>Infinity\<close>).\<close>

definition interpolateIDW_directdraw :: "point list \<Rightarrow> options \<Rightarrow> (error + byte list) option" where
  "interpolateIDW_directdraw points opts =
     (let width = opt_width opts;
          height = opt_height opts;
          cellSize = orDefault (opt_cellSize opts) 10;
          mx = orDefault (opt_max opts) (Fin 1);
          ex = orDefault (opt_exp opts) (Fin 2);
          bnds = opt_bounds opts
      in case createGradientLookup (opt_gradient opts) of
           Inl e \<Rightarrow> Some (Inl e)
         | Inr grad \<Rightarrow>
            (case at_index grad 0 of
               None \<Rightarrow> Some (Inl TypeError)
             | Some bg \<Rightarrow>
                Option.bind (prefill width height bg (newPNG width height))
                  (\<lambda>res. case res of
                     Inl e \<Rightarrow> Some (Inl e)
                   | Inr data \<Rightarrow>
                      (let r = cellSize;
                           nCellX = Math_ceil (Fin (real width) / Fin (real r));
                           nCellY = Math_ceil (Fin (real height) / Fin (real r))
                       in forLoop 0 nCellY 1
                            (\<lambda>i. forLoop 0 nCellX 1
                               (directdrawCell points width height r mx bnds ex grad bg i))
                            data))))"

subsection \<open>\<open>interpolateIDW\<close>\<close>

text \<open>The block fill of the fine-grained variant: \<open>color\<close> may be \<open>undefined\<close>, and the
  first store that reads \<open>color[0]\<close> then throws.\<close>

definition fillCellFine :: "nat \<Rightarrow> nat \<Rightarrow> nat \<Rightarrow> nat \<Rightarrow> nat \<Rightarrow> colour option \<Rightarrow> byte list
    \<Rightarrow> (error + byte list) option" where
  "fillCellFine width height cellSize x y color data =
     forLoop 0 (Fin (real cellSize)) 1
       (\<lambda>dy. forLoop 0 (Fin (real cellSize)) 1
          (\<lambda>dx d. let px = x + dx; py = y + dy
                   in if px < width \<and> py < height
                      then (let idx = (py * width + px) * 4
                            in case color of
                                 None \<Rightarrow> Some (Inl TypeError)
                               | Some c \<Rightarrow> Some (Inr (writePixel d idx c (Fin 255))))
                      else Some (Inr d)))
       data"

text \<open>The body of the loop over \<open>x\<close>, and the function: no prefill, no alpha, the
  loops counting pixels by \<open>cellSize\<close>, and \<open>options.exp || 2\<close> for the exponent.\<close>

definition fineCell :: "point list \<Rightarrow> nat \<Rightarrow> nat \<Rightarrow> nat \<Rightarrow> number \<Rightarrow> bounds \<Rightarrow> number option
    \<Rightarrow> colour list \<Rightarrow> nat \<Rightarrow> nat \<Rightarrow> byte list \<Rightarrow> (error + byte list) option" where
  "fineCell points width height cellSize mx bnds exp_opt grad y x data =
     (let half = Fin (real cellSize) / Fin 2;
          latlng = pixelToLatLng (Fin (real x) + half) (Fin (real y) + half)
                     (Fin (real width)) (Fin (real height)) bnds;
          ex = (case exp_opt of None \<Rightarrow> Fin 2 | Some e \<Rightarrow> or_else e (Fin 2));
          interpolVal = Math_min (cellValue latlng ex points) mx;
          color = at_number grad (Math_round ((interpolVal / mx) * Fin 255))
      in fillCellFine width height cellSize x y color data)"

definition interpolateIDW :: "point list \<Rightarrow> options \<Rightarrow> (error + byte list) option" where
  "interpolateIDW points opts =
     (let width = opt_width opts;
          height = opt_height opts;
          cellSize = orDefault (opt_cellSize opts) 1;
          mx = orDefault (opt_max opts) (Fin 1);
          bnds = opt_bounds opts
      in case createGradientLookup (opt_gradient opts) of
           Inl e \<Rightarrow> Some (Inl e)
         | Inr grad \<Rightarrow>
             forLoop 0 (Fin (real height)) cellSize
               (\<lambda>y. forLoop 0 (Fin (real width)) cellSize
                  (fineCell points width height cellSize mx bnds (opt_exp opts) grad y))
               (newPNG width height))"

section \<open>Notions used to state and prove the properties\<close>

subsection \<open>The weighted mean\<close>

text \<open>
  The weight a sample at distance \<open>ds\<close> adds to the denominator, \<open>1 / dist2\<close>; the loop's
  \<open>dist2\<close> itself, \<open>Math.pow(dist, exp) || 1e-6\<close>; the distance of a sample from a cell
  centre and its value; and a sum of numbers.
\<close>

definition idwWeight :: "number \<Rightarrow> number \<Rightarrow> number" where
  "idwWeight ds ex = Fin 1 / or_else (Math_pow ds ex) (Fin (1 / 10 ^ 6))"

definition dist2 :: "number \<Rightarrow> number \<Rightarrow> number" where
  "dist2 ds ex = or_else (Math_pow ds ex) (Fin (1 / 10 ^ 6))"

definition pointDist :: "latlng \<Rightarrow> point \<Rightarrow> number" where
  "pointDist c pt = (case pt of (p0, p1, p2) \<Rightarrow> haversine c \<lparr>lat = p0, lng = p1\<rparr>)"

definition pointValue :: "point \<Rightarrow> number" where
  "pointValue pt = (case pt of (p0, p1, p2) \<Rightarrow> p2)"

definition sumN :: "number list \<Rightarrow> number" where
  "sumN xs = foldr (+) xs (Fin 0)"

text \<open>
  The specification's weight, \<open>1 / max(distance^exp, \<epsilon>)\<close> with \<open>\<epsilon> = 1e-6\<close>, and the
  value \<open>\<Sigma>(pointValue * weight) / \<Sigma>(weight)\<close> it gives. These two follow the
  specification's words, not the program.
\<close>

definition claimedWeight :: "number \<Rightarrow> number \<Rightarrow> number" where
  "claimedWeight ds ex = Fin 1 / Math_max (Math_pow ds ex) (Fin (1 / 10 ^ 6))"

definition claimedValue :: "latlng \<Rightarrow> number \<Rightarrow> point list \<Rightarrow> number" where
  "claimedValue c ex points =
     sumN (map (\<lambda>pt. pointValue pt * claimedWeight (pointDist c pt) ex) points)
     / sumN (map (\<lambda>pt. claimedWeight (pointDist c pt) ex) points)"

text \<open>
  The specification's alpha for a configured fade distance: 1 up to that distance, then
  \<open>max(0, 1 - (minDist - fadeDistance) / fadeDistance)\<close>. It follows the specification's
  words, not the program.
\<close>

definition claimedAlpha :: "number \<Rightarrow> number \<Rightarrow> number" where
  "claimedAlpha fadeDistance minDist =
     (if minDist \<le> fadeDistance then Fin 1
      else Math_max (Fin 0) (Fin 1 - (minDist - fadeDistance) / fadeDistance))"

text \<open>Kinds of numbers: what a distance can be (\<open>NaN\<close> or a finite number that is not
  negative), and the finite numbers above and not below zero.\<close>

fun is_distance :: "number \<Rightarrow> bool" where
  "is_distance (Fin x) = (0 \<le> x)"
| "is_distance NaN = True"
| "is_distance PInf = False"
| "is_distance NInf = False"

fun finite_pos :: "number \<Rightarrow> bool" where
  "finite_pos (Fin x) = (0 < x)"
| "finite_pos PInf = False"
| "finite_pos NInf = False"
| "finite_pos NaN = False"

fun finite_nonneg :: "number \<Rightarrow> bool" where
  "finite_nonneg (Fin x) = (0 \<le> x)"
| "finite_nonneg PInf = False"
| "finite_nonneg NInf = False"
| "finite_nonneg NaN = False"

subsection \<open>Loops that return\<close>

text \<open>A loop over a list of indices whose body returns or throws: the value of
  \<^const>\<open>forLoop\<close> when its bound is finite, its step positive and its body returns.\<close>

fun foldE :: "(nat \<Rightarrow> 's \<Rightarrow> error + 's) \<Rightarrow> nat list \<Rightarrow> 's \<Rightarrow> error + 's" where
  "foldE b [] s = Inr s"
| "foldE b (i # is) s = (case b i s of Inl e \<Rightarrow> Inl e | Inr s' \<Rightarrow> foldE b is s')"

text \<open>The block fill and the prefill as folds, and the body of the loop over \<open>j\<close> as a
  function that returns or throws.\<close>

definition paintCell :: "nat \<Rightarrow> nat \<Rightarrow> nat \<Rightarrow> nat \<Rightarrow> nat \<Rightarrow> colour \<Rightarrow> number \<Rightarrow> byte list
    \<Rightarrow> byte list" where
  "paintCell width height r x y color a data =
     fold (\<lambda>dy. fold (\<lambda>dx d. if x + dx < width \<and> y + dy < height
                               then writePixel d (((y + dy) * width + (x + dx)) * 4) color a
                               else d)
                     [0..<r])
          [0..<r] data"

definition prefilled :: "nat \<Rightarrow> nat \<Rightarrow> colour \<Rightarrow> byte list" where
  "prefilled width height bg =
     fold (\<lambda>py. fold (\<lambda>px d. writePixel d ((py * width + px) * 4) bg (Fin 255)) [0..<width])
          [0..<height] (newPNG width height)"

definition cellStep :: "point list \<Rightarrow> nat \<Rightarrow> nat \<Rightarrow> nat \<Rightarrow> number \<Rightarrow> bounds \<Rightarrow> number
    \<Rightarrow> colour list \<Rightarrow> colour \<Rightarrow> nat \<Rightarrow> nat \<Rightarrow> byte list \<Rightarrow> error + byte list" where
  "cellStep points width height r mx bnds ex grad bg i j data =
     (case cellColor points width height r mx bnds ex grad bg i j of
        Inl e \<Rightarrow> Inl e
      | Inr (color, alpha) \<Rightarrow>
          Inr (paintCell width height r (j * r) (i * r) color (Math_round (Fin 255 * alpha))
                 data))"

subsection \<open>Colours within range\<close>

text \<open>The table entry of a parsed colour; a number, a table entry and a parsed colour
  whose components are integers from 0 to 255.\<close>

definition rgbTriple :: "rgb \<Rightarrow> colour" where
  "rgbTriple c = (Fin (of_int (rgb_r c)), Fin (of_int (rgb_g c)), Fin (of_int (rgb_b c)))"

definition byteRange :: "number \<Rightarrow> bool" where
  "byteRange a = (\<exists>k. a = Fin (of_int k) \<and> 0 \<le> k \<and> k \<le> 255)"

definition byteColour :: "colour \<Rightarrow> bool" where
  "byteColour c = (case c of (c0, c1, c2) \<Rightarrow> byteRange c0 \<and> byteRange c1 \<and> byteRange c2)"

definition byteRgb :: "rgb \<Rightarrow> bool" where
  "byteRgb c = (0 \<le> rgb_r c \<and> rgb_r c \<le> 255 \<and> 0 \<le> rgb_g c \<and> rgb_g c \<le> 255
               \<and> 0 \<le> rgb_b c \<and> rgb_b c \<le> 255)"

subsection \<open>Buffers that agree on a set of positions\<close>

text \<open>The four positions of the pixel stored at \<open>idx\<close>; the positions a cell's block
  fill stores to; two buffers of one length that agree on a set of positions; and two
  outcomes that throw the same or agree.\<close>

definition pixelIdx :: "nat \<Rightarrow> nat set" where
  "pixelIdx idx = {idx, idx + 1, idx + 2, idx + 3}"

definition blockIdx :: "nat \<Rightarrow> nat \<Rightarrow> nat \<Rightarrow> nat \<Rightarrow> nat \<Rightarrow> nat set" where
  "blockIdx width height r x y =
     (\<Union>dy\<in>{0..<r}. \<Union>dx\<in>{0..<r}.
        if x + dx < width \<and> y + dy < height then pixelIdx (((y + dy) * width + (x + dx)) * 4)
        else {})"

definition agree :: "nat set \<Rightarrow> byte list \<Rightarrow> byte list \<Rightarrow> bool" where
  "agree S d d' = (length d = length d' \<and> (\<forall>k\<in>S. k < length d \<longrightarrow> d ! k = d' ! k))"

fun agreeE :: "nat set \<Rightarrow> error + byte list \<Rightarrow> error + byte list \<Rightarrow> bool" where
  "agreeE S (Inr d) (Inr d') = agree S d d'"
| "agreeE S (Inl e) (Inl e') = (e = e')"
| "agreeE S (Inl e) (Inr d') = False"
| "agreeE S (Inr d) (Inl e') = False"

text \<open>A finite number; a colour that \<open>Math.round\<close> leaves as it is (each component an
  integer, an infinity or \<open>NaN\<close>); a colour of finite components; and the entry the table
  loop interpolates at \<open>t\<close> between the stops \<open>s0\<close> and \<open>s1\<close>.\<close>

fun isFin :: "number \<Rightarrow> bool" where
  "isFin (Fin a) = True"
| "isFin PInf = False"
| "isFin NInf = False"
| "isFin NaN = False"

definition roundedColour :: "colour \<Rightarrow> bool" where
  "roundedColour c =
     (case c of (c0, c1, c2) \<Rightarrow> Math_round c0 = c0 \<and> Math_round c1 = c1 \<and> Math_round c2 = c2)"

definition finiteColour :: "colour \<Rightarrow> bool" where
  "finiteColour c = (case c of (c0, c1, c2) \<Rightarrow> isFin c0 \<and> isFin c1 \<and> isFin c2)"

definition mixEntry :: "real \<Rightarrow> real \<Rightarrow> real \<Rightarrow> rgb \<Rightarrow> rgb \<Rightarrow> colour" where
  "mixEntry t s0 s1 c0 c1 =
     (let f = (Fin t - Fin s0) / (Fin s1 - Fin s0);
          mix = (\<lambda>a b. Math_round (Fin (of_int a) + (Fin (of_int b) - Fin (of_int a)) * f))
      in (mix (rgb_r c0) (rgb_r c1), mix (rgb_g c0) (rgb_g c1), mix (rgb_b c0) (rgb_b c1)))"

text \<open>A gradient index that names an entry of the 256-entry table.\<close>

definition inTable :: "number \<Rightarrow> bool" where
  "inTable a = (\<exists>k\<in>{0..<256::nat}. a = Fin (real k))"

subsection \<open>Sample inputs\<close>

definition black :: rgb where
  "black = \<lparr>rgb_r = 0, rgb_g = 0, rgb_b = 0\<rparr>"

definition white :: rgb where
  "white = \<lparr>rgb_r = 255, rgb_g = 255, rgb_b = 255\<rparr>"

text \<open>A bounding box whose north-east corner is the point \<open>(0, 0)\<close>.\<close>

definition box :: bounds where
  "box = \<lparr>minLat = Fin (- 10), minLng = Fin (- 10), maxLat = Fin 0, maxLng = Fin 0\<rparr>"

text \<open>Two samples on the equator, about 0.11 mm and 0.22 mm east of \<open>(0, 0)\<close>.\<close>

definition near2 :: "point list" where
  "near2 = [(Fin 0, Fin (1 / 10 ^ 9), Fin 10), (Fin 0, Fin (2 / 10 ^ 9), Fin 0)]"

text \<open>Options for a \<open>width \<times> height\<close> image over \<^const>\<open>box\<close> with a black-to-white
  gradient, everything else omitted.\<close>

definition plainOptions :: "nat \<Rightarrow> nat \<Rightarrow> options" where
  "plainOptions width height =
     \<lparr>opt_width = width, opt_height = height, opt_cellSize = None, opt_max = None,
      opt_gradient = [(0, black), (1, white)], opt_bounds = box, opt_exp = None,
      opt_fadeDistance = None\<rparr>"

section \<open>Facts about numbers\<close>

declare minus_number_def [simp]

lemma orDefault_simps [simp]: "orDefault None d = d" "orDefault (Some v) d = v"
  by (simp_all add: orDefault_def)

lemma is_integer_of_int [simp]: "is_integer (of_int k)"
  by (simp add: is_integer_def)

lemma is_integer_0 [simp]: "is_integer 0"
  by (simp add: is_integer_def)

lemma div_as_mult: "a / b = a * (Fin 1 / b)" for a b :: number
  by (cases a; cases b) (auto simp: field_simps)

lemma add_assoc_number: "(a + b) + c = a + (b + c)" for a b c :: number
  by (cases a; cases b; cases c) simp_all

lemma add_zero_number [simp]: "Fin 0 + a = a" "a + Fin 0 = a" for a :: number
  by (cases a; simp)+

lemma sumN_Nil [simp]: "sumN [] = Fin 0"
  by (simp add: sumN_def)

lemma sumN_Cons [simp]: "sumN (a # as) = a + sumN as"
  by (simp add: sumN_def)

lemma finite_posE: "finite_pos a \<Longrightarrow> (\<And>x. a = Fin x \<Longrightarrow> 0 < x \<Longrightarrow> P) \<Longrightarrow> P"
  by (cases a) auto

lemma finite_nonnegE: "finite_nonneg a \<Longrightarrow> (\<And>x. a = Fin x \<Longrightarrow> 0 \<le> x \<Longrightarrow> P) \<Longrightarrow> P"
  by (cases a) auto

lemma pow_two_Fin: "Math_pow (Fin b) (Fin 2) = Fin (b\<^sup>2)"
proof -
  consider "b = 0" | "0 < b" | "b < 0" by linarith
  then show ?thesis
  proof cases
    case 1
    then show ?thesis by simp
  next
    case 2
    then show ?thesis by simp
  next
    case 3
    have "is_integer 2" by (simp add: is_integer_def)
    moreover have "\<lfloor>2::real\<rfloor> = 2" by simp
    ultimately show ?thesis using 3 by (simp add: power_int_def)
  qed
qed

lemma at_number_int:
  assumes "0 \<le> k" "k < int (length xs)"
  shows "at_number xs (Fin (of_int k)) = Some (xs ! nat k)"
  using assms by (simp add: at_index_def)

section \<open>Facts about the projection and the distance\<close>

lemma merc_arg_range:
  assumes "- 90 < a" "a < 90"
  shows "0 < pi / 4 + a * pi / 180 / 2" "pi / 4 + a * pi / 180 / 2 < pi / 2"
proof -
  have up: "a * pi < 90 * pi"
    using assms(2) pi_gt_zero by (rule mult_strict_right_mono)
  have lo: "(- 90) * pi < a * pi"
    using assms(1) pi_gt_zero by (rule mult_strict_right_mono)
  show "0 < pi / 4 + a * pi / 180 / 2" using lo by linarith
  show "pi / 4 + a * pi / 180 / 2 < pi / 2" using up by linarith
qed

lemma latToMerc_Fin:
  assumes "- 90 < a" "a < 90"
  shows "latToMerc (Fin a) = Fin (ln (tan (pi / 4 + a * pi / 180 / 2)))"
proof -
  note r = merc_arg_range [OF assms]
  have c: "cos (pi / 4 + a * pi / 180 / 2) \<noteq> 0"
    using cos_gt_zero_pi [of "pi / 4 + a * pi / 180 / 2"] r by simp
  have t: "0 < tan (pi / 4 + a * pi / 180 / 2)"
    using tan_gt_zero r by blast
  show ?thesis
    using c t by (simp add: latToMerc_def Math_PI_def Let_def)
qed

text \<open>Between the poles, \<open>mercToLat\<close> undoes \<open>latToMerc\<close>.\<close>

lemma mercToLat_latToMerc:
  assumes "- 90 < a" "a < 90"
  shows "mercToLat (latToMerc (Fin a)) = Fin a"
proof -
  note r = merc_arg_range [OF assms]
  have t: "0 < tan (pi / 4 + a * pi / 180 / 2)"
    using tan_gt_zero r by blast
  have at: "arctan (tan (pi / 4 + a * pi / 180 / 2)) = pi / 4 + a * pi / 180 / 2"
    using r pi_gt_zero by (intro arctan_tan) linarith+
  show ?thesis
    using t at by (simp add: latToMerc_Fin [OF assms] mercToLat_def Math_PI_def field_simps)
qed

text \<open>The row \<open>y = 0\<close> has the latitude \<open>minLat\<close> and the row \<open>y = height\<close> the latitude
  \<open>maxLat\<close>, for every box between the poles.\<close>

lemma top_row_is_minLat:
  assumes "- 90 < a" "a < 90" "- 90 < b" "b < 90" "h \<noteq> 0"
  shows "lat (pixelToLatLng x (Fin 0) w (Fin h)
            \<lparr>minLat = Fin a, minLng = lo, maxLat = Fin b, maxLng = hi\<rparr>) = Fin a"
  using assms mercToLat_latToMerc [OF assms(1,2)]
  by (simp add: pixelToLatLng_def Let_def latToMerc_Fin)

lemma bottom_row_is_maxLat:
  assumes "- 90 < a" "a < 90" "- 90 < b" "b < 90" "h \<noteq> 0"
  shows "lat (pixelToLatLng x (Fin h) w (Fin h)
            \<lparr>minLat = Fin a, minLng = lo, maxLat = Fin b, maxLng = hi\<rparr>) = Fin b"
  using assms mercToLat_latToMerc [OF assms(3,4)]
  by (simp add: pixelToLatLng_def Let_def latToMerc_Fin)

lemma bottom_right:
  assumes "- 90 < a" "a < 90" "- 90 < b" "b < 90" "w \<noteq> 0" "h \<noteq> 0"
  shows "pixelToLatLng (Fin w) (Fin h) (Fin w) (Fin h)
           \<lparr>minLat = Fin a, minLng = Fin lo, maxLat = Fin b, maxLng = Fin hi\<rparr>
         = \<lparr>lat = Fin b, lng = Fin hi\<rparr>"
  using assms mercToLat_latToMerc [OF assms(3,4)]
  by (simp add: pixelToLatLng_def Let_def latToMerc_Fin)

text \<open>A cell twice as large as a square image has its centre on the image's bottom right
  corner, which over \<^const>\<open>box\<close> is the point \<open>(0, 0)\<close>.\<close>

lemma cellCentre_corner:
  assumes "0 < n"
  shows "cellCentre n n (2 * n) box 0 0 = \<lparr>lat = Fin 0, lng = Fin 0\<rparr>"
proof -
  have "cellCentre n n (2 * n) box 0 0
      = pixelToLatLng (Fin (real n)) (Fin (real n)) (Fin (real n)) (Fin (real n)) box"
    by (simp add: cellCentre_def Let_def)
  also have "\<dots> = \<lparr>lat = Fin 0, lng = Fin 0\<rparr>"
    unfolding box_def using assms by (intro bottom_right) simp_all
  finally show ?thesis .
qed

lemma cellCentre_5: "cellCentre 5 5 10 box 0 0 = \<lparr>lat = Fin 0, lng = Fin 0\<rparr>"
  using cellCentre_corner [of 5] by simp

lemma cellCentre_1: "cellCentre 1 1 2 box 0 0 = \<lparr>lat = Fin 0, lng = Fin 0\<rparr>"
  using cellCentre_corner [of 1] by simp

text \<open>A distance is \<open>NaN\<close> or a finite number that is not negative.\<close>

lemma sqrt_cases: "Math_sqrt x = PInf \<or> is_distance (Math_sqrt x)"
  by (cases x) auto

lemma atan2_is_distance:
  assumes "y = PInf \<or> is_distance y" and "x = PInf \<or> is_distance x"
  shows "is_distance (Math_atan2 y x)"
  using assms by (cases y; cases x) (auto simp: zero_le_arctan_iff)

lemma haversine_is_distance: "is_distance (haversine a b)"
proof -
  define A where "A = Math_pow (Math_sin (toRad (lat b - lat a) / Fin 2)) (Fin 2)
    + Math_cos (toRad (lat a)) * Math_cos (toRad (lat b))
      * Math_pow (Math_sin (toRad (lng b - lng a) / Fin 2)) (Fin 2)"
  have h: "haversine a b
      = Fin 6371000 * Fin 2 * Math_atan2 (Math_sqrt A) (Math_sqrt (Fin 1 - A))"
    by (simp add: haversine_def Let_def A_def)
  have "is_distance (Math_atan2 (Math_sqrt A) (Math_sqrt (Fin 1 - A)))"
    by (rule atan2_is_distance [OF sqrt_cases sqrt_cases])
  then show ?thesis unfolding h
    by (cases "Math_atan2 (Math_sqrt A) (Math_sqrt (Fin 1 - A))") simp_all
qed

lemma pointDist_is_distance: "is_distance (pointDist c pt)"
  by (cases pt) (simp add: pointDist_def haversine_is_distance)

text \<open>Along the equator the distance is the arc \<open>R * \<Delta>lng\<close>.\<close>

lemma haversine_equator:
  assumes "0 \<le> l" "l < 180"
  shows "haversine \<lparr>lat = Fin 0, lng = Fin 0\<rparr> \<lparr>lat = Fin 0, lng = Fin l\<rparr>
         = Fin (6371000 * (l * pi / 180))"
proof -
  define h where "h = l * pi / 180 / 2"
  have h0: "0 \<le> h" using assms(1) by (simp add: h_def)
  have "l * pi < 180 * pi" using assms(2) pi_gt_zero by (rule mult_strict_right_mono)
  then have h1: "h < pi / 2" unfolding h_def by linarith
  have c: "0 < cos h" using h0 h1 by (intro cos_gt_zero_pi) linarith+
  have s: "0 \<le> sin h" using h0 h1 pi_gt_zero by (intro sin_ge_zero) linarith+
  have "1 - (sin h)\<^sup>2 = (cos h)\<^sup>2" by (simp add: cos_squared_eq)
  then have cq: "sqrt (1 - (sin h)\<^sup>2) = cos h" using c by simp
  have at: "arctan (sin h / cos h) = h"
    using arctan_tan [of h] h0 h1 pi_gt_zero by (simp add: tan_def)
  have le1: "(sin h)\<^sup>2 \<le> 1" by (rule abs_square_le_1 [THEN iffD2]) simp
  have "haversine \<lparr>lat = Fin 0, lng = Fin 0\<rparr> \<lparr>lat = Fin 0, lng = Fin l\<rparr>
      = Fin 6371000 * Fin 2
        * Math_atan2 (Math_sqrt (Fin ((sin h)\<^sup>2))) (Math_sqrt (Fin (1 - (sin h)\<^sup>2)))"
    by (simp add: haversine_def Let_def toRad_def Math_PI_def pow_two_Fin h_def
        del: Math_pow.simps)
  also have "Math_sqrt (Fin ((sin h)\<^sup>2)) = Fin (sin h)"
    using s by simp
  also have "Math_sqrt (Fin (1 - (sin h)\<^sup>2)) = Fin (cos h)"
    using le1 cq by simp
  also have "Math_atan2 (Fin (sin h)) (Fin (cos h)) = Fin h"
    using c by (simp add: at)
  also have "Fin 6371000 * Fin 2 * Fin h = Fin (6371000 * 2 * h)"
    by simp
  finally show ?thesis by (simp add: h_def)
qed

lemma haversine_same:
  "haversine \<lparr>lat = Fin 0, lng = Fin 0\<rparr> \<lparr>lat = Fin 0, lng = Fin 0\<rparr> = Fin 0"
  using haversine_equator [of 0] by simp

lemma haversine_refl:
  "haversine \<lparr>lat = Fin a, lng = Fin b\<rparr> \<lparr>lat = Fin a, lng = Fin b\<rparr> = Fin 0"
  by (simp add: haversine_def Let_def toRad_def Math_PI_def)

text \<open>With a cell size of 0 every cell is centred on the corner the first pixel maps to.\<close>

lemma cellCentre_zero:
  "cellCentre 1 1 0 box i j = \<lparr>lat = Fin (- 10), lng = Fin (- 10)\<rparr>"
proof -
  have la: "lat (pixelToLatLng (Fin 0) (Fin 0) (Fin 1) (Fin 1) box) = Fin (- 10)"
    unfolding box_def by (rule top_row_is_minLat) simp_all
  have lo: "lng (pixelToLatLng (Fin 0) (Fin 0) (Fin 1) (Fin 1) box) = Fin (- 10)"
    by (simp add: pixelToLatLng_def Let_def box_def)
  have "pixelToLatLng (Fin 0) (Fin 0) (Fin 1) (Fin 1) box = \<lparr>lat = Fin (- 10), lng = Fin (- 10)\<rparr>"
    using la lo by (cases "pixelToLatLng (Fin 0) (Fin 0) (Fin 1) (Fin 1) box") simp
  then show ?thesis by (simp add: cellCentre_def Let_def)
qed

section \<open>Facts about loops\<close>

lemma forLoop_exit: "\<not> Fin (real i) < n \<Longrightarrow> forLoop i n step body s = Some (Inr s)"
  by (subst forLoop.simps) simp

lemma forLoop_enter:
  "Fin (real i) < n \<Longrightarrow> forLoop i n step body s =
     Option.bind (body i s)
       (\<lambda>res. case res of Inl e \<Rightarrow> Some (Inl e)
               | Inr s' \<Rightarrow> forLoop (i + step) n step body s')"
  by (subst forLoop.simps) simp

text \<open>A loop that counts by one up to a finite bound, with a body that returns, runs the
  body on each index below the bound.\<close>

lemma forLoop_foldE:
  assumes "\<And>i s. i < k \<Longrightarrow> body i s = Some (b i s)"
  shows "forLoop i (Fin (real k)) 1 body s = Some (foldE b [i..<k] s)"
proof (induction "k - i" arbitrary: i s)
  case 0
  then show ?case by (simp add: forLoop_exit)
next
  case (Suc d)
  then have lt: "i < k" by simp
  have d: "d = k - (i + 1)" using Suc.hyps(2) by simp
  show ?case
    using lt Suc.hyps(1) [OF d] assms [OF lt]
    by (simp add: forLoop_enter upt_conv_Cons split: sum.splits)
qed

lemma foldE_pure: "foldE (\<lambda>i s. Inr (g i s)) is s = Inr (fold g is s)"
  by (induction "is" arbitrary: s) simp_all

lemma forLoop_fold:
  assumes "\<And>i s. i < k \<Longrightarrow> body i s = Some (Inr (g i s))"
  shows "forLoop 0 (Fin (real k)) 1 body s = Some (Inr (fold g [0..<k] s))"
  using forLoop_foldE [of k body "\<lambda>i s. Inr (g i s)" 0 s] assms by (simp add: foldE_pure)

text \<open>The number of cells along a side: \<open>q * r < w\<close> exactly for the \<open>q\<close> below
  \<open>\<lceil>w / r\<rceil>\<close>.\<close>

lemma ceil_bound:
  assumes "0 < r"
  shows "(q * r < w) = (q < nat \<lceil>real w / real r\<rceil>)"
proof -
  have "(real q < real w / real r) = (q * r < w)"
    using assms by (simp add: pos_less_divide_eq flip: of_nat_mult)
  moreover have "(real q < real w / real r) = (int q < \<lceil>real w / real r\<rceil>)"
    by (simp add: less_ceiling_iff)
  ultimately show ?thesis by linarith
qed

lemma ncell_pos: "0 < r \<Longrightarrow> 0 < w \<Longrightarrow> 0 < nat \<lceil>real w / real r\<rceil>"
  using ceil_bound [of r 0 w] by simp

lemma ceil_Fin:
  "Math_ceil (Fin (real w) / Fin (real r)) =
     (if r = 0 then (if w = 0 then NaN else PInf) else Fin (real (nat \<lceil>real w / real r\<rceil>)))"
proof -
  have "0 \<le> real w / real r" by simp
  then have "- 1 < real w / real r" by linarith
  then have "0 \<le> \<lceil>real w / real r\<rceil>" unfolding zero_le_ceiling .
  then show ?thesis by simp
qed

text \<open>A loop that counts by \<open>r > 0\<close> visits the multiples of \<open>r\<close> below its bound.\<close>

lemma forLoop_stride_from:
  assumes r: "0 < r"
    and body: "\<And>q s. q * r < w \<Longrightarrow> body (q * r) s = Some (b q s)"
    and n: "\<And>q. (q * r < w) = (q < n)"
  shows "forLoop (q * r) (Fin (real w)) r body s = Some (foldE b [q..<n] s)"
proof (induction "n - q" arbitrary: q s)
  case 0
  then have nlt: "\<not> q < n" by linarith
  then have "\<not> q * r < w" using n [of q] by simp
  then have "\<not> Fin (real (q * r)) < Fin (real w)"
    unfolding less_number.simps of_nat_less_iff .
  then have "forLoop (q * r) (Fin (real w)) r body s = Some (Inr s)"
    by (rule forLoop_exit)
  then show ?case using nlt by simp
next
  case (Suc d)
  then have lt: "q < n" by simp
  then have lt': "q * r < w" using n [of q] by simp
  then have c: "Fin (real (q * r)) < Fin (real w)"
    unfolding less_number.simps of_nat_less_iff .
  have d: "d = n - (q + 1)" using Suc.hyps(2) by simp
  have nxt: "q * r + r = (q + 1) * r" by simp
  have ih: "forLoop (q * r + r) (Fin (real w)) r body s' = Some (foldE b [q + 1..<n] s')" for s'
    unfolding nxt using Suc.hyps(1) [OF d] .
  have unf: "[q..<n] = q # [q + 1..<n]"
    using lt by (simp add: upt_conv_Cons)
  show ?case
    unfolding forLoop_enter [OF c] body [OF lt'] unf
    by (cases "b q s") (simp_all add: ih)
qed

lemma forLoop_stride:
  assumes r: "0 < r"
    and body: "\<And>q s. q * r < w \<Longrightarrow> body (q * r) s = Some (b q s)"
  shows "forLoop 0 (Fin (real w)) r body s
         = Some (foldE b [0..<nat \<lceil>real w / real r\<rceil>] s)"
proof -
  have "forLoop (0 * r) (Fin (real w)) r body s
      = Some (foldE b [0..<nat \<lceil>real w / real r\<rceil>] s)"
  proof (rule forLoop_stride_from [OF r])
    show "q * r < w \<Longrightarrow> body (q * r) s = Some (b q s)" for q s by (rule body)
    show "(q * r < w) = (q < nat \<lceil>real w / real r\<rceil>)" for q by (rule ceil_bound [OF r])
  qed
  then show ?thesis by simp
qed

lemma foldE_first_throws:
  assumes "0 < m" "0 < n" "b 0 0 s = Inl e"
  shows "foldE (\<lambda>i. foldE (b i) [0..<n]) [0..<m] s = Inl e"
proof -
  have "[0..<m] = 0 # [1..<m]" "[0..<n] = 0 # [1..<n]"
    using assms(1,2) by (simp_all add: upt_conv_Cons)
  then show ?thesis using assms(3) by simp
qed

lemma foldE_total:
  assumes "\<And>i s. P s \<Longrightarrow> \<exists>s'. b i s = Inr s' \<and> P s'" and "P s"
  shows "\<exists>s'. foldE b is s = Inr s' \<and> P s'"
  using assms(2)
proof (induction "is" arbitrary: s)
  case Nil
  then show ?case by simp
next
  case (Cons i "is")
  from assms(1) [OF Cons.prems, of i] obtain s1 where s1: "b i s = Inr s1" "P s1" by auto
  from Cons.IH [OF s1(2)] show ?case using s1(1) by simp
qed

lemma foldE_total_on:
  assumes "\<And>i s. i \<in> set is \<Longrightarrow> P s \<Longrightarrow> \<exists>s'. b i s = Inr s' \<and> P s'" and "P s"
  shows "\<exists>s'. foldE b is s = Inr s' \<and> P s'"
  using assms
proof (induction "is" arbitrary: s)
  case Nil
  then show ?case by simp
next
  case (Cons i "is")
  from Cons.prems(1) [of i s] Cons.prems(2) obtain s1 where s1: "b i s = Inr s1" "P s1" by auto
  have "\<exists>s'. foldE b is s1 = Inr s' \<and> P s'"
    using Cons.prems(1) s1(2) by (intro Cons.IH) simp_all
  then show ?case using s1(1) by simp
qed

text \<open>A loop that does not advance, whose body returns, never returns.\<close>

lemma forLoop_stuck_aux:
  fixes body :: "nat \<Rightarrow> 'a \<Rightarrow> (error + 'a) option"
  assumes "forLoop i n step body s = Some y"
  shows "\<not> (step = 0 \<and> Fin (real i) < n \<and> (\<forall>s. \<exists>s'. body i s = Some (Inr s')))"
proof (rule forLoop.raw_induct
    [where P = "\<lambda>i n step body s y.
       \<not> (step = 0 \<and> Fin (real i) < n \<and> (\<forall>s. \<exists>s'. body i s = Some (Inr s')))",
     OF _ assms])
  fix f :: "nat \<Rightarrow> number \<Rightarrow> nat \<Rightarrow> (nat \<Rightarrow> 'a \<Rightarrow> (error + 'a) option) \<Rightarrow> 'a \<Rightarrow> (error + 'a) option"
  fix i n step and body :: "nat \<Rightarrow> 'a \<Rightarrow> (error + 'a) option" and s y
  assume ih: "\<And>i n step body s y. f i n step body s = Some y \<Longrightarrow>
      \<not> (step = 0 \<and> Fin (real i) < n \<and> (\<forall>s. \<exists>s'. body i s = Some (Inr s')))"
    and unf: "(if Fin (real i) < n
        then Option.bind (body i s)
               (\<lambda>res. case res of Inl e \<Rightarrow> Some (Inl e) | Inr s' \<Rightarrow> f (i + step) n step body s')
        else Some (Inr s)) = Some y"
  show "\<not> (step = 0 \<and> Fin (real i) < n \<and> (\<forall>s. \<exists>s'. body i s = Some (Inr s')))"
  proof
    assume a: "step = 0 \<and> Fin (real i) < n \<and> (\<forall>s. \<exists>s'. body i s = Some (Inr s'))"
    then obtain s' where s': "body i s = Some (Inr s')" by blast
    have "f i n 0 body s' = Some y" using unf a s' by simp
    from ih [OF this] show False using a by simp
  qed
qed

lemma forLoop_stuck:
  assumes c: "Fin (real i) < n" and b: "\<And>s. \<exists>s'. body i s = Some (Inr s')"
  shows "forLoop i n 0 body s = None"
proof (cases "forLoop i n 0 body s")
  case None
  then show ?thesis .
next
  case (Some y)
  from forLoop_stuck_aux [OF this] show ?thesis using c b by simp
qed

text \<open>A fold throws if the body throws at one of its indices whatever the state.\<close>

lemma foldE_throws:
  assumes "x \<in> set xs" and "\<And>s. \<exists>e. b x s = Inl e"
  shows "\<exists>e. foldE b xs s = Inl e"
  using assms(1)
proof (induction xs arbitrary: s)
  case Nil
  then show ?case by simp
next
  case (Cons a xs)
  show ?case
  proof (cases "b a s")
    case (Inl e)
    then show ?thesis by simp
  next
    case (Inr s')
    have "a \<noteq> x" using assms(2) [of s] Inr by auto
    then have "x \<in> set xs" using Cons.prems by simp
    from Cons.IH [OF this, of s'] show ?thesis using Inr by simp
  qed
qed

section \<open>Facts about the gradient table\<close>

lemma findIndex_range:
  "findIndex P xs = - 1 \<or> (0 \<le> findIndex P xs \<and> findIndex P xs < int (length xs))"
  by (induction xs) (auto simp: Let_def)

text \<open>With no stop the first entry throws.\<close>

lemma createGradientLookup_Nil: "createGradientLookup [] = Inl TypeError"
proof -
  have "lookupEntry [] [] 0 = Inl TypeError"
    by (simp add: lookupEntry_def Let_def at_index_def)
  moreover have "[0..<256] = 0 # [1..<256]" by (simp add: upt_conv_Cons)
  ultimately show ?thesis by (simp add: createGradientLookup_def)
qed

text \<open>With at least one stop no entry throws.\<close>

lemma lookupEntry_total:
  assumes "stops \<noteq> []" and "length colors = length stops"
  shows "\<exists>v. lookupEntry stops colors i = Inr v"
proof -
  define t where "t = Fin (real i) / Fin 255"
  define found where "found = findIndex (\<lambda>s. t \<le> Fin s) stops"
  define idx where "idx = (if found = - 1 then int (length stops) - 1 else found)"
  have len: "0 < length stops" using assms(1) by simp
  have rng: "0 \<le> idx \<and> idx < int (length stops)"
    using findIndex_range [of "\<lambda>s. t \<le> Fin s" stops] len
    unfolding idx_def found_def by auto
  show ?thesis
  proof (cases "idx = 0")
    case True
    then show ?thesis
      using len assms(2)
      unfolding lookupEntry_def Let_def t_def [symmetric] found_def [symmetric]
        idx_def [symmetric]
      by (simp add: at_index_def)
  next
    case False
    then have "0 \<le> idx - 1" "idx - 1 < int (length stops)" using rng by simp_all
    then show ?thesis
      using False rng assms(2)
      unfolding lookupEntry_def Let_def t_def [symmetric] found_def [symmetric]
        idx_def [symmetric]
      by (simp add: at_index_def)
  qed
qed

lemma pushAll_total:
  assumes "\<And>i. i \<in> set is \<Longrightarrow> \<exists>v. f i = Inr v"
  shows "\<exists>vs. pushAll f is = Inr vs \<and> length vs = length is
            \<and> (\<forall>k<length is. f (is ! k) = Inr (vs ! k))"
  using assms
proof (induction "is")
  case Nil
  then show ?case by simp
next
  case (Cons i "is")
  from Cons.prems obtain v where v: "f i = Inr v" by auto
  from Cons obtain vs where vs: "pushAll f is = Inr vs" "length vs = length is"
      "\<forall>k<length is. f (is ! k) = Inr (vs ! k)" by auto
  show ?case
    using v vs by (auto simp: nth_Cons split: nat.splits)
qed

text \<open>A gradient with at least one stop has a table of 256 entries, entry \<open>i\<close> being what
  the loop body computes for \<open>i\<close>.\<close>

lemma createGradientLookup_ok:
  assumes "grd \<noteq> []"
  shows "\<exists>tbl. createGradientLookup grd = Inr tbl \<and> length tbl = 256
           \<and> (\<forall>i<256. lookupEntry (sort (map fst grd))
                          (map (colorOf grd) (sort (map fst grd))) i = Inr (tbl ! i))"
proof -
  define stops where "stops = sort (map fst grd)"
  define colors where "colors = map (colorOf grd) stops"
  have ne: "stops \<noteq> []"
    using assms unfolding stops_def by (metis length_sort length_map length_0_conv)
  have len: "length colors = length stops" by (simp add: colors_def)
  have "\<exists>vs. pushAll (lookupEntry stops colors) [0..<256] = Inr vs
            \<and> length vs = length [0..<256]
            \<and> (\<forall>k<length [0..<256]. lookupEntry stops colors ([0..<256] ! k) = Inr (vs ! k))"
    by (rule pushAll_total) (rule lookupEntry_total [OF ne len])
  then show ?thesis
    unfolding createGradientLookup_def Let_def stops_def [symmetric] colors_def [symmetric]
    by (auto simp del: upt_Suc)
qed

text \<open>The table of the black-to-white gradient.\<close>

lemma grad_bw:
  "\<exists>tbl. createGradientLookup [(0, black), (1, white)] = Inr tbl \<and> length tbl = 256
      \<and> tbl ! 0 = (Fin 0, Fin 0, Fin 0) \<and> tbl ! 255 = (Fin 255, Fin 255, Fin 255)"
proof -
  obtain tbl where t: "createGradientLookup [(0, black), (1, white)] = Inr tbl"
      "length tbl = 256"
    and e: "\<forall>i<256. lookupEntry (sort (map fst [(0::real, black), (1, white)]))
             (map (colorOf [(0, black), (1, white)])
                (sort (map fst [(0::real, black), (1, white)]))) i
           = Inr (tbl ! i)"
    using createGradientLookup_ok [of "[(0, black), (1, white)]"] by auto
  have "lookupEntry (sort (map fst [(0::real, black), (1, white)]))
             (map (colorOf [(0, black), (1, white)])
                (sort (map fst [(0::real, black), (1, white)]))) 255
        = Inr (Fin 255, Fin 255, Fin 255)"
    by (simp add: lookupEntry_def colorOf_def at_index_def black_def white_def Let_def)
  moreover have "lookupEntry (sort (map fst [(0::real, black), (1, white)]))
             (map (colorOf [(0, black), (1, white)])
                (sort (map fst [(0::real, black), (1, white)]))) 0
        = Inr (Fin 0, Fin 0, Fin 0)"
    by (simp add: lookupEntry_def colorOf_def at_index_def black_def white_def Let_def)
  ultimately have "tbl ! 255 = (Fin 255, Fin 255, Fin 255)" "tbl ! 0 = (Fin 0, Fin 0, Fin 0)"
    using e by simp_all
  with t show ?thesis by simp
qed

text \<open>What \<open>findIndex\<close> finds is the first element that satisfies the test.\<close>

lemma findIndex_least:
  assumes "findIndex P xs = k" "k \<noteq> - 1"
  shows "0 \<le> k \<and> nat k < length xs \<and> P (xs ! nat k) \<and> (\<forall>m<nat k. \<not> P (xs ! m))"
  using assms
proof (induction xs arbitrary: k)
  case Nil
  then show ?case by simp
next
  case (Cons x xs)
  show ?case
  proof (cases "P x")
    case True
    then show ?thesis using Cons.prems by simp
  next
    case False
    define k' where "k' = findIndex P xs"
    have k: "k' \<noteq> - 1" "k = k' + 1"
      using Cons.prems False unfolding k'_def by (auto simp: Let_def split: if_splits)
    from Cons.IH [OF k'_def [symmetric] k(1)]
    have ih: "0 \<le> k'" "nat k' < length xs" "P (xs ! nat k')" "\<forall>m<nat k'. \<not> P (xs ! m)"
      by simp_all
    have n: "nat k = Suc (nat k')" using k(2) ih(1) by simp
    show ?thesis
      unfolding n using ih False k(2) by (auto simp: nth_Cons split: nat.splits)
  qed
qed

lemma findIndex_none: "findIndex P xs = - 1 \<Longrightarrow> \<forall>x\<in>set xs. \<not> P x"
proof (induction xs)
  case Nil
  then show ?case by simp
next
  case (Cons x xs)
  have r: "findIndex P xs = - 1 \<or> 0 \<le> findIndex P xs"
    using findIndex_range [of P xs] by auto
  show ?case
    using Cons r by (auto simp: Let_def split: if_splits)
qed

lemma mix_between:
  fixes a b :: int
  assumes a: "0 \<le> a" "a \<le> 255" and b: "0 \<le> b" "b \<le> 255" and f: "0 \<le> f" "f \<le> 1"
  shows "byteRange (Math_round (Fin (of_int a) + (Fin (of_int b) - Fin (of_int a)) * Fin f))"
proof -
  define y where "y = real_of_int a + (real_of_int b - real_of_int a) * f"
  have y: "y = (1 - f) * real_of_int a + f * real_of_int b" by (simp add: y_def algebra_simps)
  have "0 \<le> (1 - f) * real_of_int a" "0 \<le> f * real_of_int b"
    using a b f by simp_all
  then have y0: "0 \<le> y" unfolding y by linarith
  have u1: "(1 - f) * real_of_int a \<le> (1 - f) * 255"
    using a f by (intro mult_left_mono) simp_all
  have u2: "f * real_of_int b \<le> f * 255"
    using b f by (intro mult_left_mono) simp_all
  have "(1 - f) * 255 + f * 255 = 255" by (simp add: algebra_simps)
  then have y1: "y \<le> 255" unfolding y using u1 u2 by linarith
  have "0 \<le> round y" using y0 by (simp add: round_def)
  moreover have "round y \<le> 255" using y1 unfolding round_def by (simp add: floor_le_iff)
  moreover have "Math_round (Fin (of_int a) + (Fin (of_int b) - Fin (of_int a)) * Fin f)
      = Fin (of_int (round y))"
    by (simp add: y_def)
  ultimately show ?thesis unfolding byteRange_def by blast
qed

text \<open>An entry at or below the highest stop interpolates with \<open>0 < f \<le> 1\<close> and stays
  within 0..255; entry 0 is the colour of the lowest stop when no stop is negative; entry
  255 is the colour of the highest stop when that stop is 1.\<close>

lemma byteColour_rgbTriple: "byteRgb c \<Longrightarrow> byteColour (rgbTriple c)"
  by (auto simp: byteRgb_def byteColour_def rgbTriple_def byteRange_def)

lemma lookupEntry_in_range:
  assumes srt: "sorted stops" and dst: "distinct stops" and ne: "stops \<noteq> []"
    and len: "length colors = length stops"
    and cols: "\<forall>c\<in>set colors. byteRgb c"
    and top: "real i / 255 \<le> last stops"
  shows "\<exists>c. lookupEntry stops colors i = Inr c \<and> byteColour c"
proof -
  define t where "t = real i / 255"
  define found where "found = findIndex (\<lambda>s. Fin t \<le> Fin s) stops"
  have tf: "Fin (real i) / Fin 255 = Fin t" by (simp add: t_def)
  have "last stops \<in> set stops" using ne by simp
  then have fn: "found \<noteq> - 1"
    using findIndex_none [of "\<lambda>s. Fin t \<le> Fin s" stops] top
    unfolding found_def t_def by auto
  from findIndex_least [OF found_def [symmetric] fn]
  have k: "0 \<le> found" "nat found < length stops" "t \<le> stops ! nat found"
      "\<forall>m<nat found. \<not> t \<le> stops ! m"
    by simp_all
  have cin: "byteRgb (colors ! m)" if "m < length stops" for m
    using cols len that by simp
  show ?thesis
  proof (cases "found = 0")
    case True
    have "byteRgb (colors ! 0)" using cin ne by simp
    then have "byteColour (rgbTriple (colors ! 0))" by (rule byteColour_rgbTriple)
    then show ?thesis
      using True ne len
      unfolding lookupEntry_def Let_def tf found_def [symmetric]
      by (simp add: at_index_def rgbTriple_def)
  next
    case False
    define m where "m = nat found - 1"
    have fm: "nat found = Suc m" "found = int m + 1" "nat (found - 1) = m"
      using False k(1) unfolding m_def by simp_all
    have lt: "m < length stops" "Suc m < length stops" using k(2) fm by simp_all
    have "\<not> t \<le> stops ! m" using k(4) fm(1) by simp
    then have s0: "stops ! m < t" by simp
    have s1: "t \<le> stops ! Suc m" using k(3) fm by simp
    define f where "f = (t - stops ! m) / (stops ! Suc m - stops ! m)"
    have d: "0 < stops ! Suc m - stops ! m" using s0 s1 by simp
    have f0: "0 \<le> f" unfolding f_def using s0 d by simp
    have f1: "f \<le> 1" unfolding f_def using s1 d by (simp add: pos_divide_le_eq)
    have ff: "(Fin t - Fin (stops ! m)) / (Fin (stops ! Suc m) - Fin (stops ! m)) = Fin f"
      using d by (simp add: f_def)
    have b0: "byteRgb (colors ! m)" and b1: "byteRgb (colors ! Suc m)"
      using cin lt by simp_all
    have mixes: "byteRange (Math_round (Fin (of_int a) + (Fin (of_int b) - Fin (of_int a)) * Fin f))"
      if "0 \<le> a" "a \<le> 255" "0 \<le> b" "b \<le> 255" for a b :: int
      using that f0 f1 by (rule mix_between)
    have at: "at_index stops (found - 1) = Some (stops ! m)"
        "at_index stops found = Some (stops ! Suc m)"
        "at_index colors (found - 1) = Some (colors ! m)"
        "at_index colors found = Some (colors ! Suc m)"
      using lt len fm by (simp_all add: at_index_def)
    show ?thesis
      using False fn b0 b1
      unfolding lookupEntry_def Let_def tf found_def [symmetric]
      by (simp add: at ff byteColour_def byteRgb_def mixes
          del: minus_number_def plus_number.simps times_number.simps Math_round.simps)
  qed
qed

lemma lookupEntry_first:
  assumes ne: "stops \<noteq> []" and len: "length colors = length stops" and lo: "0 \<le> hd stops"
  shows "lookupEntry stops colors 0 = Inr (rgbTriple (colors ! 0))"
proof -
  obtain x xs where s: "stops = x # xs" using ne by (cases stops) auto
  have "findIndex (\<lambda>s. Fin 0 \<le> Fin s) stops = 0" using lo unfolding s by simp
  then show ?thesis
    using ne len unfolding lookupEntry_def Let_def
    by (simp add: at_index_def rgbTriple_def)
qed

lemma lookupEntry_last:
  assumes srt: "sorted stops" and dst: "distinct stops" and ne: "stops \<noteq> []"
    and len: "length colors = length stops" and top: "last stops = 1"
  shows "lookupEntry stops colors 255 = Inr (rgbTriple (last colors))"
proof -
  define n where "n = length stops"
  define found where "found = findIndex (\<lambda>s. Fin 1 \<le> Fin s) stops"
  have n0: "0 < n" using ne by (simp add: n_def)
  have lst: "stops ! (n - 1) = 1" using top ne by (simp add: last_conv_nth n_def)
  have below: "stops ! m < 1" if "m < n - 1" for m
  proof -
    have "stops ! m \<le> stops ! (n - 1)"
      using srt that n0 by (intro sorted_nth_mono) (simp_all add: n_def)
    moreover have "stops ! m \<noteq> stops ! (n - 1)"
      using dst that n0 by (simp add: nth_eq_iff_index_eq n_def)
    ultimately show ?thesis using lst by simp
  qed
  have "last stops \<in> set stops" using ne by simp
  then have fn: "found \<noteq> - 1"
    using findIndex_none [of "\<lambda>s. Fin 1 \<le> Fin s" stops] top
    unfolding found_def by auto
  from findIndex_least [OF found_def [symmetric] fn]
  have k: "0 \<le> found" "nat found < n" "1 \<le> stops ! nat found"
    by (simp_all add: n_def)
  have "\<not> nat found < n - 1" using below k(3) by fastforce
  then have fk: "nat found = n - 1" using k(2) by simp
  then have fi: "found = int n - 1" using k(1) n0 by linarith
  have tf: "Fin (real 255) / Fin 255 = Fin 1" by simp
  have "colors \<noteq> []" using len ne by auto
  then have lc: "last colors = colors ! (n - 1)"
    using len by (simp add: last_conv_nth n_def)
  show ?thesis
  proof (cases "n = 1")
    case True
    then show ?thesis
      using fi len n0 unfolding lookupEntry_def Let_def tf found_def [symmetric] lc
      by (simp add: at_index_def rgbTriple_def n_def)
  next
    case False
    define m where "m = n - 2"
    have nm: "n = Suc (Suc m)" using False n0 unfolding m_def by simp
    have fm: "found = int m + 1" "nat (found - 1) = m" "nat found = Suc m" "found \<noteq> 0"
      using fi nm by simp_all
    have lt: "m < length stops" "Suc m < length stops" using nm by (simp_all add: n_def)
    have at: "at_index stops (found - 1) = Some (stops ! m)"
        "at_index stops found = Some (stops ! Suc m)"
        "at_index colors (found - 1) = Some (colors ! m)"
        "at_index colors found = Some (colors ! Suc m)"
      using lt len fm by (simp_all add: at_index_def)
    have s1: "stops ! Suc m = 1" using lst nm by simp
    have s0: "stops ! m < 1" using below [of m] nm by simp
    have ff: "(Fin 1 - Fin (stops ! m)) / (Fin (stops ! Suc m) - Fin (stops ! m)) = Fin 1"
      using s0 s1 by simp
    have mix: "Math_round (Fin (of_int a) + (Fin (of_int b) - Fin (of_int a)) * Fin 1)
        = Fin (of_int b)" for a b :: int
      by simp
    have lc': "last colors = colors ! Suc m" using lc nm by simp
    show ?thesis
      using fm(4) fn
      unfolding lookupEntry_def Let_def tf found_def [symmetric] lc'
      by (simp add: at ff mix rgbTriple_def
          del: minus_number_def plus_number.simps times_number.simps Math_round.simps)
  qed
qed

text \<open>So the table is as specified when the stops are distinct and in [0, 1] and the highest
  stop is 1.\<close>

lemma gradient_table_when_top_stop_is_1:
  assumes ne: "grd \<noteq> []" and dst: "distinct (map fst grd)"
    and rng: "\<forall>(s, c)\<in>set grd. 0 \<le> s \<and> s \<le> 1 \<and> byteRgb c"
    and top: "(1, high) \<in> set grd"
    and bot: "(lo, low) \<in> set grd" "\<forall>(s, c)\<in>set grd. lo \<le> s"
  shows "\<exists>tbl. createGradientLookup grd = Inr tbl \<and> length tbl = 256
           \<and> (\<forall>c\<in>set tbl. byteColour c)
           \<and> tbl ! 0 = rgbTriple low \<and> tbl ! 255 = rgbTriple high"
proof -
  define stops where "stops = sort (map fst grd)"
  define colors where "colors = map (colorOf grd) stops"
  define n where "n = length stops"
  have srt: "sorted stops" and ds: "distinct stops" and st: "set stops = fst ` set grd"
    using dst by (simp_all add: stops_def)
  have sne: "stops \<noteq> []" using ne st by auto
  have n0: "0 < n" using sne by (simp add: n_def)
  have len: "length colors = length stops" by (simp add: colors_def)
  have in01: "0 \<le> s \<and> s \<le> 1" if "s \<in> set stops" for s
    using that rng st by auto
  have le_last: "s \<le> last stops" if "s \<in> set stops" for s
  proof -
    from that obtain k where k: "k < n" "stops ! k = s" by (auto simp: in_set_conv_nth n_def)
    have "stops ! k \<le> stops ! (n - 1)"
      using srt k(1) by (intro sorted_nth_mono) (simp_all add: n_def)
    then show ?thesis using k(2) sne by (simp add: last_conv_nth n_def)
  qed
  have hd_le: "hd stops \<le> s" if "s \<in> set stops" for s
  proof -
    from that obtain k where k: "k < n" "stops ! k = s" by (auto simp: in_set_conv_nth n_def)
    have "stops ! 0 \<le> stops ! k"
      using srt k(1) by (intro sorted_nth_mono) (simp_all add: n_def)
    then show ?thesis using k(2) sne by (simp add: hd_conv_nth)
  qed
  have "1 \<in> set stops" using top st by force
  then have "1 \<le> last stops" by (rule le_last)
  moreover have "last stops \<le> 1" using in01 [of "last stops"] sne by simp
  ultimately have last1: "last stops = 1" by simp
  have "lo \<in> set stops" using bot(1) st by force
  then have "hd stops \<le> lo" by (rule hd_le)
  moreover have "lo \<le> hd stops"
  proof -
    have "hd stops \<in> fst ` set grd" using sne st by auto
    then show ?thesis using bot(2) by auto
  qed
  ultimately have hd_lo: "hd stops = lo" by simp
  have col: "colorOf grd s = c" if "(s, c) \<in> set grd" for s c
    using that dst by (simp add: colorOf_def)
  have cols: "\<forall>c\<in>set colors. byteRgb c"
  proof
    fix c assume "c \<in> set colors"
    then obtain s where s: "s \<in> set stops" "c = colorOf grd s" by (auto simp: colors_def)
    then obtain c' where c': "(s, c') \<in> set grd" using st by auto
    then have "c = c'" using s(2) col by simp
    then show "byteRgb c" using c' rng by auto
  qed
  have c0: "colors ! 0 = low"
    using sne hd_lo bot(1) col by (simp add: colors_def hd_conv_nth)
  have cl: "last colors = high"
    using sne last1 top col by (simp add: colors_def last_map)
  obtain tbl where t: "createGradientLookup grd = Inr tbl" "length tbl = 256"
    and e: "\<forall>i<256. lookupEntry stops colors i = Inr (tbl ! i)"
    using createGradientLookup_ok [OF ne] unfolding stops_def colors_def by auto
  have "byteColour c" if "c \<in> set tbl" for c
  proof -
    from that obtain i where i: "i < 256" "tbl ! i = c"
      using t(2) by (auto simp: in_set_conv_nth)
    have "real i / 255 \<le> last stops" using i(1) last1 by simp
    from lookupEntry_in_range [OF srt ds sne len cols this]
    obtain c' where "lookupEntry stops colors i = Inr c'" "byteColour c'" by auto
    then show ?thesis using e i by auto
  qed
  moreover have "tbl ! 0 = rgbTriple low"
    using lookupEntry_first [OF sne len] hd_lo bot(1) rng e c0 by force
  moreover have "tbl ! 255 = rgbTriple high"
    using lookupEntry_last [OF srt ds sne len last1] e cl by force
  ultimately show ?thesis using t by blast
qed

section \<open>Facts about the weighted mean\<close>

lemma idwWeight_nonneg:
  assumes "is_distance ds"
  shows "finite_nonneg (idwWeight ds ex)"
  using assms by (cases ex; cases ds) (auto simp: or_else_def idwWeight_def)

text \<open>A weight is positive unless the exponent is negative and the distance zero: there
  \<open>Math.pow\<close> gives \<open>Infinity\<close> and the weight is 0.\<close>

lemma idwWeight_pos:
  assumes "is_distance ds" and "0 \<le> e \<or> ds \<noteq> Fin 0"
  shows "finite_pos (idwWeight ds (Fin e))"
  using assms by (cases ds) (auto simp: or_else_def idwWeight_def)

lemma idwWeight_rule:
  "(Math_pow ds ex = Fin p \<and> p \<noteq> 0 \<longrightarrow> idwWeight ds ex = Fin (1 / p))
   \<and> (Math_pow ds ex = Fin 0 \<or> Math_pow ds ex = NaN \<longrightarrow> idwWeight ds ex = Fin (10 ^ 6))"
  by (auto simp: idwWeight_def or_else_def)

lemma idwStep_eq:
  "idwStep c ex pt (n, d, m) =
     (n + pointValue pt * idwWeight (pointDist c pt) ex, d + idwWeight (pointDist c pt) ex,
      Math_min m (pointDist c pt))"
proof -
  obtain p0 p1 p2 where pt: "pt = (p0, p1, p2)" by (cases pt)
  define D where
    "D = or_else (Math_pow (haversine c \<lparr>lat = p0, lng = p1\<rparr>) ex) (Fin (1 / 10 ^ 6))"
  have "p2 / D = p2 * (Fin 1 / D)" by (rule div_as_mult)
  then show ?thesis
    unfolding pt idwStep_def pointDist_def pointValue_def idwWeight_def Let_def D_def by simp
qed

lemma fold_idwStep:
  "fold (idwStep c ex) pts (n, d, m) =
     (n + sumN (map (\<lambda>pt. pointValue pt * idwWeight (pointDist c pt) ex) pts),
      d + sumN (map (\<lambda>pt. idwWeight (pointDist c pt) ex) pts),
      fold (\<lambda>pt m. Math_min m (pointDist c pt)) pts m)"
proof (induction pts arbitrary: n d m)
  case Nil
  show ?case by simp
next
  case (Cons pt pts)
  show ?case
    by (simp add: idwStep_eq Cons.IH add_assoc_number)
qed

text \<open>The loop's quotient is the quotient of the two sums.\<close>

lemma cellValue_sums:
  "cellValue c ex pts =
     sumN (map (\<lambda>pt. pointValue pt * idwWeight (pointDist c pt) ex) pts)
     / sumN (map (\<lambda>pt. idwWeight (pointDist c pt) ex) pts)"
  by (simp add: cellValue_def idwSums_def fold_idwStep)

lemma cellValue_Nil [simp]: "cellValue c ex [] = NaN"
  by (simp add: cellValue_def idwSums_def)

lemma cellMinDist_Nil [simp]: "cellMinDist c ex [] = PInf"
  by (simp add: cellMinDist_def idwSums_def)

lemma cellMinDist_single [simp]:
  "cellMinDist c ex [pt] = Math_min PInf (pointDist c pt)"
  by (simp add: cellMinDist_def idwSums_def idwStep_eq)

text \<open>One sample, the divisions being exact: the weight cancels, if it is not zero.\<close>

lemma single_point_value:
  assumes "0 \<le> e \<or> pointDist c (p0, p1, Fin v) \<noteq> Fin 0"
  shows "cellValue c (Fin e) [(p0, p1, Fin v)] = Fin v"
proof -
  have "finite_pos (idwWeight (pointDist c (p0, p1, Fin v)) (Fin e))"
    using pointDist_is_distance assms by (rule idwWeight_pos)
  then obtain w where w: "idwWeight (pointDist c (p0, p1, Fin v)) (Fin e) = Fin w" "0 < w"
    by (rule finite_posE)
  show ?thesis
    using w by (simp add: cellValue_sums pointValue_def)
qed

text \<open>The distances of the two samples of \<^const>\<open>near2\<close> from \<open>(0, 0)\<close>, and their
  squares, which are below \<open>1e-6\<close>.\<close>

lemma near_dists:
  fixes k :: real
  defines "k \<equiv> 6371000 * (1 / 10 ^ 9 * pi / 180)"
  shows "pointDist \<lparr>lat = Fin 0, lng = Fin 0\<rparr> (Fin 0, Fin (1 / 10 ^ 9), v) = Fin k"
    and "pointDist \<lparr>lat = Fin 0, lng = Fin 0\<rparr> (Fin 0, Fin (2 / 10 ^ 9), v) = Fin (2 * k)"
    and "0 < k" and "(2 * k)\<^sup>2 < 1 / 10 ^ 6" and "k\<^sup>2 < 1 / 10 ^ 6"
proof -
  show "pointDist \<lparr>lat = Fin 0, lng = Fin 0\<rparr> (Fin 0, Fin (1 / 10 ^ 9), v) = Fin k"
    unfolding pointDist_def k_def using haversine_equator [of "1 / 10 ^ 9"] by simp
  show "pointDist \<lparr>lat = Fin 0, lng = Fin 0\<rparr> (Fin 0, Fin (2 / 10 ^ 9), v) = Fin (2 * k)"
    unfolding pointDist_def k_def using haversine_equator [of "2 / 10 ^ 9"] by simp
  show k0: "0 < k" unfolding k_def by simp
  have "k < 6371000 * (1 / 10 ^ 9 * 4 / 180)"
    unfolding k_def using pi_less_4 by simp
  then have k1: "2 * k < 1 / 1000" by simp
  have "(2 * k)\<^sup>2 < (1 / 1000)\<^sup>2"
    using k1 k0 by (intro power_strict_mono) simp_all
  then show b2: "(2 * k)\<^sup>2 < 1 / 10 ^ 6" by (simp add: power2_eq_square)
  have "k\<^sup>2 \<le> (2 * k)\<^sup>2" using k0 by (intro power_mono) simp_all
  then show "k\<^sup>2 < 1 / 10 ^ 6" using b2 by linarith
qed

text \<open>A sample on the equator 0.6 degrees east of \<open>(0, 0)\<close>: between 30 km and 100 km
  away (about 66.7 km).\<close>

lemma far_sample:
  fixes d :: real
  defines "d \<equiv> 6371000 * (3 / 5 * pi / 180)"
  shows "cellMinDist (cellCentre 1 1 2 box 0 0) (Fin 2) [(Fin 0, Fin (3 / 5), Fin 1)] = Fin d"
    and "30000 < d" and "d < 100000"
proof -
  have pd: "pointDist \<lparr>lat = Fin 0, lng = Fin 0\<rparr> (Fin 0, Fin (3 / 5), Fin 1) = Fin d"
    unfolding pointDist_def d_def using haversine_equator [of "3 / 5"] by simp
  show "cellMinDist (cellCentre 1 1 2 box 0 0) (Fin 2) [(Fin 0, Fin (3 / 5), Fin 1)] = Fin d"
    unfolding cellCentre_1 cellMinDist_single pd by simp
  show "30000 < d" unfolding d_def using pi_ge_two by simp
  show "d < 100000" unfolding d_def using pi_less_4 by simp
qed

text \<open>The loop on one sample, and the power that replaces \<open>dist2\<close>: it is never 0 or
  \<open>NaN\<close>; for a distance it is \<open>Infinity\<close> or finite and positive.\<close>

lemma idwWeight_dist2: "idwWeight ds ex = Fin 1 / dist2 ds ex"
  by (simp add: idwWeight_def dist2_def)

lemma dist2_truthy: "dist2 ds ex \<noteq> Fin 0 \<and> dist2 ds ex \<noteq> NaN"
  by (cases "Math_pow ds ex") (simp_all add: dist2_def or_else_def)

lemma cellValue_single:
  "cellValue c ex [(p0, p1, v)]
     = (v / dist2 (pointDist c (p0, p1, v)) ex) / (Fin 1 / dist2 (pointDist c (p0, p1, v)) ex)"
proof -
  have z: "Fin 0 + x = x" for x by (cases x) simp_all
  show ?thesis
    by (simp add: cellValue_def idwSums_def idwStep_def pointDist_def dist2_def z Let_def
        del: divide_number.simps Math_pow.simps)
qed

lemma weight_zero_iff:
  "(idwWeight ds ex = Fin 0) = (dist2 ds ex = PInf \<or> dist2 ds ex = NInf)"
  unfolding idwWeight_dist2 by (cases "dist2 ds ex") simp_all

lemma dist2_of_distance:
  assumes "is_distance ds"
  shows "dist2 ds ex = PInf \<or> finite_pos (dist2 ds ex)"
  using assms by (cases ex; cases ds) (auto simp: dist2_def or_else_def)

text \<open>When every power is \<open>Infinity\<close> every weight is 0, and the value is \<open>0 / 0\<close>.\<close>

lemma sums_vanish:
  assumes "\<forall>pt\<in>set pts. dist2 (pointDist c pt) ex = PInf"
  shows "sumN (map (\<lambda>pt. idwWeight (pointDist c pt) ex) pts) = Fin 0
       \<and> (sumN (map (\<lambda>pt. pointValue pt * idwWeight (pointDist c pt) ex) pts) = Fin 0
          \<or> sumN (map (\<lambda>pt. pointValue pt * idwWeight (pointDist c pt) ex) pts) = NaN)"
  using assms
proof (induction pts)
  case Nil
  show ?case by simp
next
  case (Cons pt pts)
  have w: "idwWeight (pointDist c pt) ex = Fin 0"
    using Cons.prems by (simp add: idwWeight_dist2)
  have v: "pointValue pt * Fin 0 = Fin 0 \<or> pointValue pt * Fin 0 = NaN"
    by (cases "pointValue pt") simp_all
  from Cons have ih: "sumN (map (\<lambda>pt. idwWeight (pointDist c pt) ex) pts) = Fin 0"
    "sumN (map (\<lambda>pt. pointValue pt * idwWeight (pointDist c pt) ex) pts) = Fin 0
          \<or> sumN (map (\<lambda>pt. pointValue pt * idwWeight (pointDist c pt) ex) pts) = NaN"
    by simp_all
  show ?case using w v ih by auto
qed

lemma value_vanishing_weights:
  assumes "\<forall>pt\<in>set pts. dist2 (pointDist c pt) ex = PInf"
  shows "cellValue c ex pts = NaN"
  using sums_vanish [OF assms] unfolding cellValue_sums by auto

text \<open>The sums keep the sign the sample values share.\<close>

lemma sums_nonneg:
  assumes "\<forall>pt\<in>set pts. \<exists>v. pointValue pt = Fin v \<and> 0 \<le> s * v"
  shows "\<exists>n d. sumN (map (\<lambda>pt. pointValue pt * idwWeight (pointDist c pt) ex) pts) = Fin n
          \<and> sumN (map (\<lambda>pt. idwWeight (pointDist c pt) ex) pts) = Fin d
          \<and> 0 \<le> d \<and> 0 \<le> s * n"
  using assms
proof (induction pts)
  case Nil
  show ?case by simp
next
  case (Cons pt pts)
  then obtain n d where nd:
    "sumN (map (\<lambda>pt. pointValue pt * idwWeight (pointDist c pt) ex) pts) = Fin n"
    "sumN (map (\<lambda>pt. idwWeight (pointDist c pt) ex) pts) = Fin d"
    "0 \<le> d" "0 \<le> s * n"
    by auto
  from Cons.prems obtain v where v: "pointValue pt = Fin v" "0 \<le> s * v" by auto
  have "finite_nonneg (idwWeight (pointDist c pt) ex)"
    using pointDist_is_distance by (rule idwWeight_nonneg)
  then obtain w where w: "idwWeight (pointDist c pt) ex = Fin w" "0 \<le> w"
    by (rule finite_nonnegE)
  have "0 \<le> (s * v) * w" using v(2) w(2) by (rule mult_nonneg_nonneg)
  then have "0 \<le> s * (v * w + n)" using nd(4) by (simp add: algebra_simps)
  moreover have "0 \<le> w + d" using w(2) nd(3) by simp
  ultimately show ?case using nd(1,2) v(1) w(1) by simp
qed

lemma value_sign:
  assumes "\<forall>pt\<in>set pts. \<exists>v. pointValue pt = Fin v \<and> 0 \<le> s * v" and s: "s \<noteq> 0"
  shows "cellValue c ex pts = NaN \<or> Fin 0 \<le> Fin s * cellValue c ex pts"
proof -
  from sums_nonneg [OF assms(1)] obtain n d where nd:
    "sumN (map (\<lambda>pt. pointValue pt * idwWeight (pointDist c pt) ex) pts) = Fin n"
    "sumN (map (\<lambda>pt. idwWeight (pointDist c pt) ex) pts) = Fin d"
    "0 \<le> d" "0 \<le> s * n"
    by blast
  show ?thesis
  proof (cases "d = 0")
    case False
    then have "0 < d" using nd(3) by simp
    then have "0 \<le> s * n / d" using nd(4) by simp
    then show ?thesis unfolding cellValue_sums nd using False by simp
  next
    case True
    show ?thesis
      unfolding cellValue_sums nd True using nd(4) s
      by (auto simp: zero_le_mult_iff not_less not_le)
  qed
qed

lemma value_not_negative:
  assumes "\<forall>pt\<in>set pts. \<exists>v. pointValue pt = Fin v \<and> 0 \<le> v"
  shows "cellValue c ex pts = NaN \<or> Fin 0 \<le> cellValue c ex pts"
proof -
  have "cellValue c ex pts = NaN \<or> Fin 0 \<le> Fin 1 * cellValue c ex pts"
    by (rule value_sign) (use assms in simp_all)
  then show ?thesis by (cases "cellValue c ex pts") simp_all
qed

lemma value_not_positive:
  assumes "\<forall>pt\<in>set pts. \<exists>v. pointValue pt = Fin v \<and> v \<le> 0"
  shows "cellValue c ex pts = NaN \<or> cellValue c ex pts \<le> Fin 0"
proof -
  have "cellValue c ex pts = NaN \<or> Fin 0 \<le> Fin (- 1) * cellValue c ex pts"
    by (rule value_sign) (use assms in simp_all)
  then show ?thesis by (cases "cellValue c ex pts") simp_all
qed

text \<open>Samples on the equator at least 0.1 degrees east of \<open>(0, 0)\<close> are more than a metre
  away, and \<open>Math.pow(dist, Infinity)\<close> is \<open>Infinity\<close> for them.\<close>

lemma equator_dist:
  assumes "0 \<le> l" "l < 180"
  shows "pointDist \<lparr>lat = Fin 0, lng = Fin 0\<rparr> (Fin 0, Fin l, v) = Fin (6371000 * (l * pi / 180))"
  unfolding pointDist_def using haversine_equator [OF assms] by simp

lemma dist2_infinite_exp: "1 < d \<Longrightarrow> dist2 (Fin d) PInf = PInf"
  by (simp add: dist2_def or_else_def)

lemma far_dist2:
  assumes "1 / 10 \<le> l" "l < 180"
  shows "dist2 (pointDist \<lparr>lat = Fin 0, lng = Fin 0\<rparr> (Fin 0, Fin l, v)) PInf = PInf"
proof -
  have "0 \<le> l" using assms(1) by simp
  note d = equator_dist [OF this assms(2)]
  have "1 / 10 * 2 \<le> l * pi"
    using assms(1) pi_ge_two by (intro mult_mono) simp_all
  then have "6371000 * (1 / 10 * 2 / 180) \<le> 6371000 * (l * pi / 180)"
    by (intro mult_left_mono divide_right_mono) simp_all
  with _ have "1 < 6371000 * (l * pi / 180)" by (rule less_le_trans) simp
  then show ?thesis unfolding d by (rule dist2_infinite_exp)
qed

text \<open>The sample of \<open>far_sample\<close> with any value.\<close>

lemma far_sample_any:
  fixes d :: real
  defines "d \<equiv> 6371000 * (3 / 5 * pi / 180)"
  shows "cellMinDist (cellCentre 1 1 2 box 0 0) ex [(Fin 0, Fin (3 / 5), v)] = Fin d"
    and "d < 100000"
proof -
  have pd: "pointDist \<lparr>lat = Fin 0, lng = Fin 0\<rparr> (Fin 0, Fin (3 / 5), v) = Fin d"
    unfolding d_def by (rule equator_dist) simp_all
  show "cellMinDist (cellCentre 1 1 2 box 0 0) ex [(Fin 0, Fin (3 / 5), v)] = Fin d"
    unfolding cellCentre_1 cellMinDist_single pd by simp
  show "d < 100000" unfolding d_def using pi_less_4 by simp
qed

section \<open>Facts about the gradient index and the alpha\<close>

lemma gradientIndex_in_range:
  assumes "0 < m" "0 \<le> x"
  shows "\<exists>k. gradientIndex (Math_min (Fin x) (Fin m)) (Fin m) = Fin (of_int k)
            \<and> 0 \<le> k \<and> k \<le> 255"
proof -
  define y where "y = min x m / m * 255"
  have q0: "0 \<le> min x m / m" using assms by simp
  have y0: "0 \<le> y" unfolding y_def using q0 by (rule mult_nonneg_nonneg) simp
  have q1: "min x m / m \<le> 1" using assms by (simp add: pos_divide_le_eq)
  have "min x m / m * 255 \<le> 1 * 255" using q1 by (rule mult_right_mono) simp
  then have y1: "y \<le> 255" by (simp add: y_def)
  have "0 \<le> round y" using y0 by (simp add: round_def)
  moreover have "round y \<le> 255" using y1 unfolding round_def by (simp add: floor_le_iff)
  moreover have "gradientIndex (Math_min (Fin x) (Fin m)) (Fin m) = Fin (of_int (round y))"
    using assms(1) by (simp add: gradientIndex_def strict_eq_def y_def)
  ultimately show ?thesis by blast
qed

lemma featherAlpha_Fin:
  "featherAlpha (Fin d) =
     (if d \<le> 100000 then Fin 1 else Fin (max 0 (1 - (d - 100000) / 100000)))"
  by (simp add: featherAlpha_def FADE_DISTANCE_def)

lemma featherAlpha_PInf [simp]: "featherAlpha PInf = Fin 0"
  by (simp add: featherAlpha_def FADE_DISTANCE_def)

lemma featherAlpha_range: "\<exists>a. featherAlpha m = Fin a \<and> 0 \<le> a \<and> a \<le> 1"
  by (cases m) (auto simp: featherAlpha_def FADE_DISTANCE_def)

lemma fade_mono_real:
  fixes a b :: real
  assumes "a \<le> b"
  shows "max 0 (1 - (b - 100000) / 100000) \<le> max 0 (1 - (a - 100000) / 100000)"
proof -
  have "1 - (b - 100000) / 100000 \<le> 1 - (a - 100000) / 100000"
    using assms by (simp add: divide_right_mono)
  then show ?thesis by (rule max.mono [OF order_refl])
qed

lemma featherAlpha_mono:
  assumes "m1 \<le> m2" "FADE_DISTANCE < m1"
  shows "featherAlpha m2 \<le> featherAlpha m1"
proof (cases m1)
  case (Fin a)
  show ?thesis
  proof (cases m2)
    case (Fin b)
    then show ?thesis
      using assms \<open>m1 = Fin a\<close> fade_mono_real [of a b]
      by (simp add: featherAlpha_Fin FADE_DISTANCE_def)
  qed (use assms Fin in \<open>simp_all add: featherAlpha_Fin featherAlpha_def FADE_DISTANCE_def\<close>)
next
  case PInf
  then have "m2 = PInf" using assms(1) by (cases m2) simp_all
  then show ?thesis using PInf by simp
qed (use assms in \<open>simp_all add: featherAlpha_def FADE_DISTANCE_def\<close>)

section \<open>Facts about the engine\<close>

lemma fillCell_paint:
  "fillCell width height r x y color alpha data =
     Some (Inr (paintCell width height r x y color (Math_round (Fin 255 * alpha)) data))"
  unfolding fillCell_def paintCell_def
  by (rule forLoop_fold, rule forLoop_fold) (simp add: Let_def)

lemma directdrawCell_step:
  "directdrawCell points width height r mx bnds ex grad bg i j data =
     Some (cellStep points width height r mx bnds ex grad bg i j data)"
  unfolding directdrawCell_def cellStep_def
  by (simp add: fillCell_paint split: sum.splits)

lemma prefill_fold:
  "prefill width height bg (newPNG width height) = Some (Inr (prefilled width height bg))"
  unfolding prefill_def prefilled_def
  by (rule forLoop_fold, rule forLoop_fold) (simp add: Let_def)

text \<open>With a positive cell size the direct-draw variant returns: it runs the cell body
  over the grid of \<open>\<lceil>height / r\<rceil>\<close> by \<open>\<lceil>width / r\<rceil>\<close> cells, row by row, from the
  prefilled buffer, up to the first cell that throws.\<close>

lemma directdraw_unfold:
  assumes grad: "createGradientLookup (opt_gradient opts) = Inr grad"
    and bg: "at_index grad 0 = Some bg"
    and r: "0 < orDefault (opt_cellSize opts) 10"
  shows "interpolateIDW_directdraw points opts =
     Some (foldE (\<lambda>i. foldE (cellStep points (opt_width opts) (opt_height opts)
                               (orDefault (opt_cellSize opts) 10)
                               (orDefault (opt_max opts) (Fin 1)) (opt_bounds opts)
                               (orDefault (opt_exp opts) (Fin 2)) grad bg i)
                        [0..<nat \<lceil>real (opt_width opts)
                                  / real (orDefault (opt_cellSize opts) 10)\<rceil>])
                 [0..<nat \<lceil>real (opt_height opts) / real (orDefault (opt_cellSize opts) 10)\<rceil>]
                 (prefilled (opt_width opts) (opt_height opts) bg))"
proof -
  define r where "r = orDefault (opt_cellSize opts) 10"
  have r0: "r \<noteq> 0" using r by (simp add: r_def)
  have inner: "forLoop 0 (Fin (real n)) 1 (directdrawCell points w h r mx bnds ex grad bg i) s
      = Some (foldE (cellStep points w h r mx bnds ex grad bg i) [0..<n] s)"
    for n w h mx bnds ex i s
    by (rule forLoop_foldE) (rule directdrawCell_step)
  have outer: "forLoop 0 (Fin (real m)) 1
       (\<lambda>i. forLoop 0 (Fin (real n)) 1 (directdrawCell points w h r mx bnds ex grad bg i)) s
      = Some (foldE (\<lambda>i. foldE (cellStep points w h r mx bnds ex grad bg i) [0..<n]) [0..<m] s)"
    for m n w h mx bnds ex s
    by (rule forLoop_foldE) (rule inner)
  have cx: "Math_ceil (Fin (real w) / Fin (real r)) = Fin (real (nat \<lceil>real w / real r\<rceil>))"
    for w
    using r0 by (simp only: ceil_Fin if_False)
  show ?thesis
    unfolding interpolateIDW_directdraw_def Let_def r_def [symmetric]
    by (simp only: grad bg prefill_fold sum.case option.case Option.bind.simps cx outer)
qed

lemma length_writePixel [simp]: "length (writePixel d idx c a) = length d"
  by (cases c) (simp add: writePixel_def)

lemma length_fold_keep:
  assumes "\<And>i d. length (g i d) = length d"
  shows "length (fold g is d) = length d"
  by (induction "is" arbitrary: d) (simp_all add: assms)

lemma length_paintCell [simp]: "length (paintCell w h r x y c a d) = length d"
  unfolding paintCell_def by (intro length_fold_keep) simp

lemma length_prefilled [simp]: "length (prefilled w h bg) = 4 * w * h"
proof -
  have "length (prefilled w h bg) = length (newPNG w h)"
    unfolding prefilled_def by (intro length_fold_keep) simp
  then show ?thesis by (simp add: newPNG_def)
qed

text \<open>A cell with no sample points: the value is \<open>0 / 0\<close>, which is \<open>NaN\<close>, and the
  minimum distance stays \<open>Infinity\<close>, so alpha is 0.\<close>

lemma cellColor_empty_points:
  "cellColor [] w h r mx bnds ex grad bg i j =
     (if strict_eq mx (Fin 0)
      then (case at_number grad (Fin 0) of None \<Rightarrow> Inl TypeError
            | Some c \<Rightarrow> Inr (blend c bg (Fin 0), Fin 0))
      else Inl TypeError)"
proof -
  have "Math_round (Math_min NaN mx / mx * Fin 255) = NaN"
    by (cases mx) simp_all
  then show ?thesis
    by (simp add: cellColor_def Let_def gradientIndex_def del: at_number.simps(1)
        split: option.splits)
qed

text \<open>If the first cell throws, the render throws.\<close>

lemma directdraw_first_cell_throws:
  assumes grad: "createGradientLookup (opt_gradient opts) = Inr grad"
    and bg: "at_index grad 0 = Some bg"
    and r: "0 < orDefault (opt_cellSize opts) 10"
    and w: "0 < opt_width opts" and h: "0 < opt_height opts"
    and c: "cellColor points (opt_width opts) (opt_height opts) (orDefault (opt_cellSize opts) 10)
              (orDefault (opt_max opts) (Fin 1)) (opt_bounds opts)
              (orDefault (opt_exp opts) (Fin 2)) grad bg 0 0 = Inl e"
  shows "interpolateIDW_directdraw points opts = Some (Inl e)"
proof -
  have "cellStep points (opt_width opts) (opt_height opts) (orDefault (opt_cellSize opts) 10)
          (orDefault (opt_max opts) (Fin 1)) (opt_bounds opts)
          (orDefault (opt_exp opts) (Fin 2)) grad bg 0 0 s = Inl e" for s
    by (simp add: cellStep_def c)
  then show ?thesis
    unfolding directdraw_unfold [OF grad bg r]
    using ncell_pos [OF r w] ncell_pos [OF r h]
    by (simp add: foldE_first_throws)
qed

text \<open>A run: a 1 by 1 image, cell size 2, one sample of value 1 about 66.7 km from the
  cell's centre. Whatever \<open>fadeDistance\<close> the options carry, the pixel is white with
  alpha 255.\<close>

lemma sample_run:
  "interpolateIDW_directdraw [(Fin 0, Fin (3 / 5), Fin 1)]
       ((plainOptions 1 1)\<lparr>opt_cellSize := Some 2, opt_fadeDistance := fd\<rparr>)
     = Some (Inr [255, 255, 255, 255])"
proof -
  define d :: real where "d = 6371000 * (3 / 5 * pi / 180)"
  note far = far_sample [folded d_def]
  have fa: "featherAlpha (Fin d) = Fin 1"
    using far(3) by (simp add: featherAlpha_Fin)
  obtain tbl where t: "createGradientLookup [(0, black), (1, white)] = Inr tbl"
      "length tbl = 256" "tbl ! 0 = (Fin 0, Fin 0, Fin 0)"
      "tbl ! 255 = (Fin 255, Fin 255, Fin 255)"
    using grad_bw by auto
  have bg: "at_index tbl 0 = Some (Fin 0, Fin 0, Fin 0)"
    using t by (simp add: at_index_def)
  have v: "cellValue (cellCentre 1 1 2 box 0 0) (Fin 2) [(Fin 0, Fin (3 / 5), Fin 1)] = Fin 1"
    by (rule single_point_value) simp
  have idx: "gradientIndex (Math_min (Fin 1) (Fin 1)) (Fin 1) = Fin 255"
    by (simp add: gradientIndex_def strict_eq_def)
  have top: "at_number tbl (Fin 255) = Some (Fin 255, Fin 255, Fin 255)"
    using at_number_int [of 255 tbl] t by simp
  have cc: "cellColor [(Fin 0, Fin (3 / 5), Fin 1)] 1 1 2 (Fin 1) box (Fin 2) tbl
              (Fin 0, Fin 0, Fin 0) 0 0 = Inr ((Fin 255, Fin 255, Fin 255), Fin 1)"
    unfolding cellColor_def Let_def v far(1) idx top fa by (simp add: blend_def)
  have n1: "nat \<lceil>(1::real) / 2\<rceil> = 1"
  proof -
    have "\<lceil>(1::real) / 2\<rceil> = 1" by (rule ceiling_unique) simp_all
    then show ?thesis by simp
  qed
  have cs: "cellStep [(Fin 0, Fin (3 / 5), Fin 1)] 1 1 2 (Fin 1) box (Fin 2) tbl
              (Fin 0, Fin 0, Fin 0) 0 0 s
      = Inr (paintCell 1 1 2 0 0 (Fin 255, Fin 255, Fin 255) (Fin 255) s)" for s
    unfolding cellStep_def cc by simp
  have pre: "prefilled 1 1 (Fin 0, Fin 0, Fin 0) = [0, 0, 0, 255]"
    by (simp add: prefilled_def newPNG_def writePixel_def eval_nat_numeral)
  have paint: "paintCell 1 1 2 0 0 (Fin 255, Fin 255, Fin 255) (Fin 255) [0, 0, 0, 255]
      = [255, 255, 255, 255]"
    by (simp add: paintCell_def writePixel_def eval_nat_numeral)
  show ?thesis
    by (subst directdraw_unfold [where grad = tbl and bg = "(Fin 0, Fin 0, Fin 0)"])
       (simp_all add: plainOptions_def t bg n1 cs [unfolded One_nat_def]
          pre [unfolded One_nat_def] paint [unfolded One_nat_def])
qed

text \<open>A cell size of 0. The fine-grained variant never advances \<open>x\<close>, and its block fill
  does nothing, so it does not return. The direct-draw variant has \<open>Infinity\<close> cells in a
  row; it throws if the first cell does.\<close>

lemma fine_zero_cell_size:
  assumes tbl: "createGradientLookup (opt_gradient opts) = Inr tbl"
    and cs: "opt_cellSize opts = Some 0"
    and w: "0 < opt_width opts" and h: "0 < opt_height opts"
  shows "interpolateIDW points opts = None"
proof -
  have cell: "\<exists>s'. fineCell points width height 0 mx bnds exp_opt tbl y 0 s = Some (Inr s')"
    for width height mx bnds exp_opt y s
    by (simp add: fineCell_def fillCellFine_def Let_def forLoop_exit)
  have cw: "Fin (real (0::nat)) < Fin (real (opt_width opts))" using w by simp
  have ch: "Fin (real (0::nat)) < Fin (real (opt_height opts))" using h by simp
  have row: "forLoop 0 (Fin (real (opt_width opts))) 0
      (fineCell points (opt_width opts) (opt_height opts) 0 mx bnds exp_opt tbl y) s = None"
    for mx bnds exp_opt y s
    using cw by (rule forLoop_stuck) (rule cell)
  show ?thesis
    unfolding interpolateIDW_def Let_def tbl cs
    by (simp add: forLoop_enter [OF ch] row)
qed

lemma directdraw_zero_cell_size:
  assumes grad: "createGradientLookup (opt_gradient opts) = Inr grad"
    and bg: "at_index grad 0 = Some bg"
    and cs: "opt_cellSize opts = Some 0"
    and w: "0 < opt_width opts" and h: "0 < opt_height opts"
    and c: "cellColor points (opt_width opts) (opt_height opts) 0
              (orDefault (opt_max opts) (Fin 1)) (opt_bounds opts)
              (orDefault (opt_exp opts) (Fin 2)) grad bg 0 0 = Inl e"
  shows "interpolateIDW_directdraw points opts = Some (Inl e)"
proof -
  have nx: "Math_ceil (Fin (real (opt_width opts)) / Fin (real (0::nat))) = PInf"
    using w by (simp add: ceil_Fin)
  have ny: "Math_ceil (Fin (real (opt_height opts)) / Fin (real (0::nat))) = PInf"
    using h by (simp add: ceil_Fin)
  have inf: "Fin (real (0::nat)) < PInf" by simp
  have cell: "directdrawCell points (opt_width opts) (opt_height opts) 0
      (orDefault (opt_max opts) (Fin 1)) (opt_bounds opts) (orDefault (opt_exp opts) (Fin 2))
      grad bg 0 0 s = Some (Inl e)" for s
    by (simp add: directdrawCell_def c)
  have row: "forLoop 0 PInf 1 (directdrawCell points (opt_width opts) (opt_height opts) 0
      (orDefault (opt_max opts) (Fin 1)) (opt_bounds opts) (orDefault (opt_exp opts) (Fin 2))
      grad bg 0) s = Some (Inl e)" for s
    by (subst forLoop_enter [OF inf]) (simp only: cell Option.bind.simps sum.case)
  have grid: "forLoop 0 PInf 1 (\<lambda>i. forLoop 0 PInf 1
      (directdrawCell points (opt_width opts) (opt_height opts) 0
        (orDefault (opt_max opts) (Fin 1)) (opt_bounds opts) (orDefault (opt_exp opts) (Fin 2))
        grad bg i)) s = Some (Inl e)" for s
    by (subst forLoop_enter [OF inf]) (simp only: row Option.bind.simps sum.case)
  show ?thesis
    unfolding interpolateIDW_directdraw_def Let_def
    by (simp only: grad bg cs orDefault_simps prefill_fold sum.case option.case
        Option.bind.simps nx ny grid)
qed

section \<open>Facts about the two variants\<close>

text \<open>Storing the same values at the same positions of two buffers that agree on \<open>S\<close>
  makes them agree on \<open>S\<close> and on the positions stored to.\<close>

lemma agree_update:
  assumes "agree S d d'"
  shows "agree (insert i S) (d[i := v]) (d'[i := v])"
proof -
  have "d[i := v] ! k = d'[i := v] ! k" if "k \<in> insert i S" "k < length d" for k
  proof (cases "k = i")
    case True
    then show ?thesis using that assms by (simp add: agree_def)
  next
    case False
    then show ?thesis using that assms by (simp add: agree_def)
  qed
  then show ?thesis using assms by (simp add: agree_def)
qed

lemma agree_writePixel:
  assumes "agree S d d'"
  shows "agree (S \<union> pixelIdx idx) (writePixel d idx c a) (writePixel d' idx c a)"
proof -
  obtain c0 c1 c2 where c: "c = (c0, c1, c2)" by (cases c)
  have "agree (insert (idx + 3) (insert (idx + 2) (insert (idx + 1) (insert idx S))))
          (writePixel d idx c a) (writePixel d' idx c a)"
    unfolding c writePixel_def prod.case
    by (intro agree_update assms)
  moreover have "insert (idx + 3) (insert (idx + 2) (insert (idx + 1) (insert idx S)))
      = S \<union> pixelIdx idx"
    by (auto simp: pixelIdx_def)
  ultimately show ?thesis by simp
qed

lemma fold_agree:
  assumes "\<And>x S d d'. x \<in> set xs \<Longrightarrow> agree S d d' \<Longrightarrow> agree (S \<union> T x) (g x d) (g x d')"
    and "agree S d d'"
  shows "agree (S \<union> (\<Union>x\<in>set xs. T x)) (fold g xs d) (fold g xs d')"
  using assms
proof (induction xs arbitrary: S d d')
  case Nil
  then show ?case by simp
next
  case (Cons x xs)
  have "agree (S \<union> T x) (g x d) (g x d')"
    using Cons.prems by simp
  then have "agree ((S \<union> T x) \<union> (\<Union>x\<in>set xs. T x)) (fold g xs (g x d)) (fold g xs (g x d'))"
    using Cons.prems(1) by (intro Cons.IH) simp_all
  then show ?case by (simp add: Un_assoc)
qed

lemma agree_paintCell:
  assumes "agree S d d'"
  shows "agree (S \<union> blockIdx width height r x y)
           (paintCell width height r x y c a d) (paintCell width height r x y c a d')"
proof -
  have row: "agree (S' \<union> (\<Union>dx\<in>set [0..<r].
                if x + dx < width \<and> y + dy < height
                then pixelIdx (((y + dy) * width + (x + dx)) * 4) else {}))
       (fold (\<lambda>dx d. if x + dx < width \<and> y + dy < height
                       then writePixel d (((y + dy) * width + (x + dx)) * 4) c a else d) [0..<r] e)
       (fold (\<lambda>dx d. if x + dx < width \<and> y + dy < height
                       then writePixel d (((y + dy) * width + (x + dx)) * 4) c a else d) [0..<r] e')"
    if "agree S' e e'" for S' e e' dy
    using _ that by (rule fold_agree) (auto intro: agree_writePixel)
  have "agree (S \<union> (\<Union>dy\<in>set [0..<r]. \<Union>dx\<in>set [0..<r].
                if x + dx < width \<and> y + dy < height
                then pixelIdx (((y + dy) * width + (x + dx)) * 4) else {}))
          (paintCell width height r x y c a d) (paintCell width height r x y c a d')"
    unfolding paintCell_def using _ assms by (rule fold_agree) (rule row)
  then show ?thesis by (simp add: blockIdx_def)
qed

lemma foldE_agree:
  assumes "\<And>x S d d'. x \<in> set xs \<Longrightarrow> agree S d d' \<Longrightarrow> agreeE (S \<union> T x) (b x d) (b x d')"
    and "agree S d d'"
  shows "agreeE (S \<union> (\<Union>x\<in>set xs. T x)) (foldE b xs d) (foldE b xs d')"
  using assms
proof (induction xs arbitrary: S d d')
  case Nil
  then show ?case by simp
next
  case (Cons x xs)
  have st: "agreeE (S \<union> T x) (b x d) (b x d')"
    using Cons.prems by simp
  show ?case
  proof (cases "b x d")
    case (Inl e)
    then show ?thesis using st by (cases "b x d'") simp_all
  next
    case (Inr e)
    then obtain e' where e': "b x d' = Inr e'" using st by (cases "b x d'") simp_all
    have "agree (S \<union> T x) e e'" using st Inr e' by simp
    then have "agreeE ((S \<union> T x) \<union> (\<Union>x\<in>set xs. T x)) (foldE b xs e) (foldE b xs e')"
      using Cons.prems(1) by (intro Cons.IH) simp_all
    then show ?thesis using Inr e' by (simp add: Un_assoc)
  qed
qed

lemma agreeE_cellStep:
  assumes "agree S d d'"
  shows "agreeE (S \<union> blockIdx width height r (j * r) (i * r))
           (cellStep points width height r mx bnds ex grad bg i j d)
           (cellStep points width height r mx bnds ex grad bg i j d')"
  unfolding cellStep_def
  by (cases "cellColor points width height r mx bnds ex grad bg i j")
     (auto intro: agree_paintCell [OF assms])

text \<open>Every position of the buffer lies in the block of some cell of the grid.\<close>

lemma coverage:
  assumes r: "0 < r" and k: "k < 4 * width * height"
  shows "k \<in> (\<Union>i\<in>set [0..<nat \<lceil>real height / real r\<rceil>].
               \<Union>j\<in>set [0..<nat \<lceil>real width / real r\<rceil>]. blockIdx width height r (j * r) (i * r))"
proof -
  define p where "p = k div 4"
  define px where "px = p mod width"
  define py where "py = p div width"
  have w: "0 < width" using k by (cases width) simp_all
  have p: "p < width * height" using k unfolding p_def by (simp add: less_mult_imp_div_less mult.commute mult.left_commute)
  have px: "px < width" using w by (simp add: px_def)
  have py: "py < height" using p w unfolding py_def by (simp add: less_mult_imp_div_less mult.commute)
  have pe: "py * width + px = p" by (simp add: px_def py_def)
  define i where "i = py div r"
  define j where "j = px div r"
  have iy: "i * r + py mod r = py" by (simp add: i_def)
  have jx: "j * r + px mod r = px" by (simp add: j_def)
  have "i * r \<le> py" using iy by linarith
  then have "i * r < height" using py by simp
  then have i: "i < nat \<lceil>real height / real r\<rceil>" using ceil_bound [OF r] by simp
  have "j * r \<le> px" using jx by linarith
  then have "j * r < width" using px by simp
  then have j: "j < nat \<lceil>real width / real r\<rceil>" using ceil_bound [OF r] by simp
  have "k = k div 4 * 4 \<or> k = k div 4 * 4 + 1 \<or> k = k div 4 * 4 + 2 \<or> k = k div 4 * 4 + 3"
    by presburger
  then have kp: "k \<in> pixelIdx (p * 4)"
    unfolding pixelIdx_def p_def by blast
  have dy: "py mod r \<in> {0..<r}" and dx: "px mod r \<in> {0..<r}"
    using r by simp_all
  have "k \<in> (if j * r + px mod r < width \<and> i * r + py mod r < height
              then pixelIdx (((i * r + py mod r) * width + (j * r + px mod r)) * 4) else {})"
    unfolding iy jx pe using px py kp by simp
  then have "k \<in> blockIdx width height r (j * r) (i * r)"
    unfolding blockIdx_def using dy dx by blast
  moreover have "i \<in> set [0..<nat \<lceil>real height / real r\<rceil>]"
    "j \<in> set [0..<nat \<lceil>real width / real r\<rceil>]"
    using i j by simp_all
  ultimately show ?thesis by blast
qed

lemma Math_round_idem: "Math_round (Math_round a) = Math_round a"
  by (cases a) simp_all

lemma findIndex_all_fail: "\<forall>x\<in>set xs. \<not> P x \<Longrightarrow> findIndex P xs = - 1"
  by (induction xs) simp_all

lemma pushAll_Inr:
  assumes "pushAll f is = Inr vs"
  shows "length vs = length is \<and> (\<forall>k<length is. f (is ! k) = Inr (vs ! k))"
  using assms
proof (induction "is" arbitrary: vs)
  case Nil
  then show ?case by simp
next
  case (Cons i "is")
  from Cons.prems obtain v vs' where v: "f i = Inr v" "pushAll f is = Inr vs'" "vs = v # vs'"
    by (auto split: sum.splits)
  from Cons.IH [OF v(2)] show ?case
    using v by (auto simp: nth_Cons split: nat.splits)
qed

lemma at_index_in_set: "at_index xs k = Some c \<Longrightarrow> c \<in> set xs"
proof -
  assume a: "at_index xs k = Some c"
  then have "0 \<le> k" "k < int (length xs)" "c = xs ! nat k"
    by (auto simp: at_index_def split: if_splits)
  then have "nat k < length xs" by linarith
  then show ?thesis using \<open>c = xs ! nat k\<close> by simp
qed

lemma at_number_in_set: "at_number xs a = Some c \<Longrightarrow> c \<in> set xs"
  by (cases a) (auto dest: at_index_in_set split: if_splits)

text \<open>The two ways an entry is made.\<close>

lemma lookupEntry_Inr:
  assumes "lookupEntry stops colors i = Inr c"
    and idx: "idx = (if findIndex (\<lambda>s. Fin (real i / 255) \<le> Fin s) stops = - 1
                     then int (length stops) - 1
                     else findIndex (\<lambda>s. Fin (real i / 255) \<le> Fin s) stops)"
  shows "(idx = 0 \<and> (\<exists>c0. at_index colors 0 = Some c0 \<and> c = rgbTriple c0))
       \<or> (idx \<noteq> 0 \<and> (\<exists>s0 s1 c0 c1. at_index stops (idx - 1) = Some s0
              \<and> at_index stops idx = Some s1 \<and> at_index colors (idx - 1) = Some c0
              \<and> at_index colors idx = Some c1
              \<and> c = mixEntry (real i / 255) s0 s1 c0 c1))"
proof -
  have tf: "Fin (real i) / Fin 255 = Fin (real i / 255)" by simp
  note e = assms(1) [unfolded lookupEntry_def Let_def tf, folded idx]
  show ?thesis
  proof (cases "idx = 0")
    case True
    then show ?thesis using e by (auto simp: rgbTriple_def split: option.splits)
  next
    case False
    from e False obtain s0 s1 c0 c1 where
      s: "at_index stops (idx - 1) = Some s0" "at_index stops idx = Some s1"
         "at_index colors (idx - 1) = Some c0" "at_index colors idx = Some c1"
      by (auto split: option.splits)
    have "c = mixEntry (real i / 255) s0 s1 c0 c1"
      using e False unfolding s Let_def mixEntry_def
      by (simp only: if_False option.case prod.case sum.inject)
    then show ?thesis using False s by blast
  qed
qed

lemma roundedColour_rgbTriple: "roundedColour (rgbTriple c)"
  by (simp add: roundedColour_def rgbTriple_def)

lemma roundedColour_mixEntry: "roundedColour (mixEntry t s0 s1 c0 c1)"
  unfolding roundedColour_def mixEntry_def Let_def prod.case
  by (simp only: Math_round_idem)

lemma lookupEntry_rounded:
  assumes "lookupEntry stops colors i = Inr c"
  shows "roundedColour c"
  using lookupEntry_Inr [OF assms refl] roundedColour_rgbTriple roundedColour_mixEntry
  by metis

lemma finiteColour_rgbTriple [simp]: "finiteColour (rgbTriple c)"
  by (simp add: finiteColour_def rgbTriple_def)

lemma mix_finite:
  assumes "s1 \<noteq> s0"
  shows "finiteColour (mixEntry t s0 s1 c0 c1)"
  using assms by (simp add: finiteColour_def mixEntry_def Let_def)

lemma mix_pole:
  assumes "s0 < t" "s0 < t'"
  shows "mixEntry t s0 s0 c0 c1 = mixEntry t' s0 s0 c0 c1"
  using assms by (simp add: mixEntry_def)

text \<open>Entry 0 has finite components, or every entry is entry 0: the latter when the two
  highest stops are equal and below 0.\<close>

lemma table_background:
  assumes e0: "lookupEntry stops colors 0 = Inr bg" and ei: "lookupEntry stops colors i = Inr c"
  shows "finiteColour bg \<or> c = bg"
proof (cases "findIndex (\<lambda>s. Fin (real (0::nat) / 255) \<le> Fin s) stops = - 1")
  case False
  define found where "found = findIndex (\<lambda>s. Fin (real (0::nat) / 255) \<le> Fin s) stops"
  have fn: "found \<noteq> - 1" using False by (simp add: found_def)
  from findIndex_least [OF found_def [symmetric] fn]
  have k: "0 \<le> found" "nat found < length stops" "0 \<le> stops ! nat found"
      "\<forall>m<nat found. \<not> 0 \<le> stops ! m"
    by simp_all
  have idx: "found = (if findIndex (\<lambda>s. Fin (real (0::nat) / 255) \<le> Fin s) stops = - 1
                     then int (length stops) - 1
                     else findIndex (\<lambda>s. Fin (real (0::nat) / 255) \<le> Fin s) stops)"
    using fn by (simp add: found_def)
  note a0 = lookupEntry_Inr [OF e0 idx]
  have "finiteColour bg"
  proof (cases "found = 0")
    case True
    then obtain c0 where "bg = rgbTriple c0" using a0 by blast
    then show ?thesis by simp
  next
    case False
    from a0 False obtain s0 s1 c0 c1 where
      s: "at_index stops (found - 1) = Some s0" "at_index stops found = Some s1"
      and b: "bg = mixEntry (real (0::nat) / 255) s0 s1 c0 c1"
      by blast
    have s0: "s0 = stops ! nat (found - 1)" and s1: "s1 = stops ! nat found"
      using s by (auto simp: at_index_def split: if_splits)
    have "nat (found - 1) < nat found" using False k(1) by linarith
    then have "\<not> 0 \<le> s0" using k(4) s0 by simp
    moreover have "0 \<le> s1" using k(3) s1 by simp
    ultimately have "s1 \<noteq> s0" by auto
    then show ?thesis unfolding b by (rule mix_finite)
  qed
  then show ?thesis ..
next
  case True
  then have neg: "\<forall>s\<in>set stops. \<not> 0 \<le> s"
    using findIndex_none [of "\<lambda>s. Fin (real (0::nat) / 255) \<le> Fin s" stops] by simp
  then have "\<forall>s\<in>set stops. \<not> Fin (real i / 255) \<le> Fin s"
    by (auto simp: not_le intro: less_le_trans)
  then have fi: "findIndex (\<lambda>s. Fin (real i / 255) \<le> Fin s) stops = - 1"
    by (rule findIndex_all_fail)
  define idx where "idx = int (length stops) - 1"
  have i0: "idx = (if findIndex (\<lambda>s. Fin (real (0::nat) / 255) \<le> Fin s) stops = - 1
                     then int (length stops) - 1
                     else findIndex (\<lambda>s. Fin (real (0::nat) / 255) \<le> Fin s) stops)"
    using True by (simp add: idx_def)
  have ii: "idx = (if findIndex (\<lambda>s. Fin (real i / 255) \<le> Fin s) stops = - 1
                     then int (length stops) - 1
                     else findIndex (\<lambda>s. Fin (real i / 255) \<le> Fin s) stops)"
    using fi by (simp add: idx_def)
  note a0 = lookupEntry_Inr [OF e0 i0]
  note ai = lookupEntry_Inr [OF ei ii]
  show ?thesis
  proof (cases "idx = 0")
    case True
    then show ?thesis using a0 ai by auto
  next
    case False
    from a0 False obtain s0 s1 c0 c1 where
      s: "at_index stops (idx - 1) = Some s0" "at_index stops idx = Some s1"
         "at_index colors (idx - 1) = Some c0" "at_index colors idx = Some c1"
      and b: "bg = mixEntry (real (0::nat) / 255) s0 s1 c0 c1"
      by blast
    from ai False s have
      c: "c = mixEntry (real i / 255) s0 s1 c0 c1"
      by auto
    show ?thesis
    proof (cases "s1 = s0")
      case False
      then have "finiteColour bg" unfolding b by (rule mix_finite)
      then show ?thesis ..
    next
      case True
      have "s0 \<in> set stops" using s(1) by (rule at_index_in_set)
      then have lt: "s0 < 0" using neg by auto
      have "s0 < real (0::nat) / 255" using lt by simp
      moreover have "s0 < real i / 255" using lt by (auto intro: less_le_trans)
      ultimately have "c = bg" unfolding b c True by (intro mix_pole)
      then show ?thesis ..
    qed
  qed
qed

text \<open>Every entry of a table is rounded, and is entry 0 unless entry 0 is finite.\<close>

lemma table_blends:
  assumes "createGradientLookup grd = Inr tbl"
  shows "length tbl = 256
       \<and> (\<forall>c\<in>set tbl. roundedColour c \<and> (finiteColour (tbl ! 0) \<or> c = tbl ! 0))"
proof -
  define stops where "stops = sort (map fst grd)"
  define colors where "colors = map (colorOf grd) stops"
  have p: "pushAll (lookupEntry stops colors) [0..<256] = Inr tbl"
    using assms(1) unfolding createGradientLookup_def Let_def stops_def colors_def .
  from pushAll_Inr [OF p] have len: "length tbl = 256"
    and ent: "\<forall>k<256. lookupEntry stops colors ([0..<256] ! k) = Inr (tbl ! k)"
    by (simp_all del: upt_Suc)
  have e: "lookupEntry stops colors k = Inr (tbl ! k)" if "k < 256" for k
    using ent that by (simp del: upt_Suc)
  have "roundedColour c \<and> (finiteColour (tbl ! 0) \<or> c = tbl ! 0)" if "c \<in> set tbl" for c
  proof -
    from that obtain k where k: "k < 256" "tbl ! k = c"
      using len by (auto simp: in_set_conv_nth)
    have ek: "lookupEntry stops colors k = Inr c" using e [OF k(1)] k(2) by simp
    have e0: "lookupEntry stops colors 0 = Inr (tbl ! 0)" using e [of 0] by simp
    show ?thesis
      using lookupEntry_rounded [OF ek] table_background [OF e0 ek] by simp
  qed
  then show ?thesis using len by blast
qed

text \<open>Blending at alpha 1 stores the bytes of the table entry: the entry itself when the
  background is finite, and 0 for every component when entry and background are the same
  colour with a component that is not finite.\<close>

lemma blend_component:
  assumes "Math_round x = x" and "isFin b \<or> x = b"
  shows "toUint8 (Math_round (x * Fin 1 + b * (Fin 1 - Fin 1))) = toUint8 x"
proof (cases b)
  case (Fin y)
  then have "x * Fin 1 + b * (Fin 1 - Fin 1) = x" by (cases x) simp_all
  then show ?thesis using assms(1) by simp
next
  case PInf
  then show ?thesis using assms(2) by simp
next
  case NInf
  then show ?thesis using assms(2) by simp
next
  case NaN
  then show ?thesis using assms(2) by simp
qed

lemma writePixel_blend:
  assumes "roundedColour c" and "finiteColour bg \<or> c = bg"
  shows "writePixel d idx (blend c bg (Fin 1)) a = writePixel d idx c a"
proof -
  obtain c0 c1 c2 where c: "c = (c0, c1, c2)" by (cases c)
  obtain b0 b1 b2 where b: "bg = (b0, b1, b2)" by (cases bg)
  have r: "Math_round c0 = c0" "Math_round c1 = c1" "Math_round c2 = c2"
    using assms(1) by (simp_all add: roundedColour_def c)
  have f: "isFin b0 \<or> c0 = b0" "isFin b1 \<or> c1 = b1" "isFin b2 \<or> c2 = b2"
    using assms(2) by (auto simp: finiteColour_def c b)
  show ?thesis
    unfolding c b blend_def writePixel_def prod.case
    by (simp only: blend_component [OF r(1) f(1)] blend_component [OF r(2) f(2)]
        blend_component [OF r(3) f(3)])
qed

lemma paintCell_blend:
  assumes "roundedColour c" and "finiteColour bg \<or> c = bg"
  shows "paintCell width height r x y (blend c bg (Fin 1)) a d = paintCell width height r x y c a d"
  unfolding paintCell_def by (simp only: writePixel_blend [OF assms])

lemma fillCellFine_Some:
  "fillCellFine width height r x y (Some c) data =
     Some (Inr (paintCell width height r x y c (Fin 255) data))"
  unfolding fillCellFine_def paintCell_def
  by (rule forLoop_fold, rule forLoop_fold) (simp add: Let_def)

lemma fillCellFine_None:
  assumes "0 < r" "x < width" "y < height"
  shows "fillCellFine width height r x y None data = Some (Inl TypeError)"
proof -
  have c: "Fin (real (0::nat)) < Fin (real r)" using assms(1) by simp
  show ?thesis
    unfolding fillCellFine_def forLoop_enter [OF c]
    using assms(2,3) by (simp add: Let_def)
qed

text \<open>A cell that does not fade, with \<open>max > 0\<close> and the exponent omitted or positive:
  the cell body of the fine-grained variant does what the cell body of the direct-draw
  variant does.\<close>

lemma fineCell_step:
  assumes r: "0 < r" and x: "j * r < width" and y: "i * r < height"
    and mx: "Fin 0 < mx"
    and ex: "exp_opt = None \<or> (\<exists>e. exp_opt = Some e \<and> Fin 0 < e)"
    and near: "cellMinDist (cellCentre width height r bnds i j) (orDefault exp_opt (Fin 2)) points
                 \<le> Fin 100000"
    and tbl: "\<forall>c\<in>set grad. roundedColour c \<and> (finiteColour bg \<or> c = bg)"
  shows "fineCell points width height r mx bnds exp_opt grad (i * r) (j * r) data =
           Some (cellStep points width height r mx bnds (orDefault exp_opt (Fin 2)) grad bg i j data)"
proof -
  define c where "c = cellCentre width height r bnds i j"
  define e where "e = orDefault exp_opt (Fin 2)"
  have e: "(case exp_opt of None \<Rightarrow> Fin 2 | Some e \<Rightarrow> or_else e (Fin 2)) = e"
    using ex unfolding e_def by (cases exp_opt) (auto simp: or_else_def elim: less_number.elims)
  have cc: "pixelToLatLng (Fin (real (j * r)) + Fin (real r) / Fin 2)
              (Fin (real (i * r)) + Fin (real r) / Fin 2) (Fin (real width)) (Fin (real height)) bnds = c"
    unfolding c_def cellCentre_def Let_def ..
  have nz: "\<not> strict_eq mx (Fin 0)"
    using mx by (cases mx) (simp_all add: strict_eq_def)
  define idx where "idx = Math_round (Math_min (cellValue c e points) mx / mx * Fin 255)"
  have gi: "gradientIndex (Math_min (cellValue c e points) mx) mx = idx"
    using nz by (simp add: gradientIndex_def idx_def)
  have fine: "fineCell points width height r mx bnds exp_opt grad (i * r) (j * r) data
      = fillCellFine width height r (j * r) (i * r) (at_number grad idx) data"
    unfolding fineCell_def Let_def e cc idx_def ..
  have alpha: "featherAlpha (cellMinDist c e points) = Fin 1"
    using near unfolding c_def e_def featherAlpha_def FADE_DISTANCE_def
    by (cases "cellMinDist (cellCentre width height r bnds i j) (orDefault exp_opt (Fin 2)) points")
       simp_all
  have col: "cellColor points width height r mx bnds e grad bg i j =
      (case at_number grad idx of None \<Rightarrow> Inl TypeError
       | Some interpColor \<Rightarrow> Inr (blend interpColor bg (Fin 1), Fin 1))"
    unfolding cellColor_def Let_def c_def [symmetric] gi alpha ..
  show ?thesis
  proof (cases "at_number grad idx")
    case None
    then show ?thesis
      unfolding fine e_def [symmetric] cellStep_def col
      using fillCellFine_None [OF r x y] by simp
  next
    case (Some v)
    then have "v \<in> set grad" by (rule at_number_in_set)
    then have v: "roundedColour v" "finiteColour bg \<or> v = bg" using tbl by simp_all
    have "paintCell width height r (j * r) (i * r) (blend v bg (Fin 1)) (Fin 255) data
        = paintCell width height r (j * r) (i * r) v (Fin 255) data"
      using v by (rule paintCell_blend)
    then show ?thesis
      unfolding fine e_def [symmetric] cellStep_def col Some
      by (simp add: fillCellFine_Some)
  qed
qed

lemma length_cellStep:
  "cellStep points width height r mx bnds ex grad bg i j d = Inr d' \<Longrightarrow> length d' = length d"
  by (auto simp: cellStep_def split: sum.splits)

lemma foldE_length:
  assumes "\<And>x s s'. b x s = Inr s' \<Longrightarrow> length s' = length s" and "foldE b xs d = Inr d'"
  shows "length d' = length (d :: byte list)"
  using assms(2)
proof (induction xs arbitrary: d)
  case Nil
  then show ?case by simp
next
  case (Cons x xs)
  then obtain s where s: "b x d = Inr s" "foldE b xs s = Inr d'"
    by (auto split: sum.splits)
  show ?case using Cons.IH [OF s(2)] assms(1) [OF s(1)] by simp
qed

text \<open>The loop over the grid gives the same outcome from any two buffers of the image's
  size: it throws at the same cell or overwrites every position.\<close>

lemma grid_independent:
  assumes r: "0 < r" and d: "length d = 4 * width * height" and d': "length d' = 4 * width * height"
  shows "foldE (\<lambda>i. foldE (cellStep points width height r mx bnds ex grad bg i)
                       [0..<nat \<lceil>real width / real r\<rceil>])
               [0..<nat \<lceil>real height / real r\<rceil>] d
       = foldE (\<lambda>i. foldE (cellStep points width height r mx bnds ex grad bg i)
                       [0..<nat \<lceil>real width / real r\<rceil>])
               [0..<nat \<lceil>real height / real r\<rceil>] d'"
    (is "?F d = ?F d'")
proof -
  let ?nx = "nat \<lceil>real width / real r\<rceil>" and ?ny = "nat \<lceil>real height / real r\<rceil>"
  let ?T = "\<lambda>i. \<Union>j\<in>set [0..<?nx]. blockIdx width height r (j * r) (i * r)"
  have row: "agreeE (S \<union> ?T i)
       (foldE (cellStep points width height r mx bnds ex grad bg i) [0..<?nx] s)
       (foldE (cellStep points width height r mx bnds ex grad bg i) [0..<?nx] s')"
    if "agree S s s'" for S s s' i
    using _ that by (rule foldE_agree) (rule agreeE_cellStep)
  have start: "agree {} d d'" using d d' by (simp add: agree_def)
  have ag: "agreeE ({} \<union> (\<Union>i\<in>set [0..<?ny]. ?T i)) (?F d) (?F d')"
    using _ start by (rule foldE_agree) (rule row)
  show ?thesis
  proof (cases "?F d")
    case (Inl e)
    then show ?thesis using ag by (cases "?F d'") simp_all
  next
    case (Inr e)
    then obtain e' where e': "?F d' = Inr e'" using ag by (cases "?F d'") simp_all
    have a: "agree (\<Union>i\<in>set [0..<?ny]. ?T i) e e'" using ag Inr e' by simp
    have len: "length e = length d"
      using _ Inr
    proof (rule foldE_length)
      show "length s' = length s"
        if "foldE (cellStep points width height r mx bnds ex grad bg x) [0..<?nx] s = Inr s'"
        for x s s'
        using _ that by (rule foldE_length) (rule length_cellStep)
    qed
    have "e = e'"
    proof (rule nth_equalityI)
      show "length e = length e'" using a by (simp add: agree_def)
      fix k assume "k < length e"
      then have "k < 4 * width * height" using len d by simp
      then have "k \<in> (\<Union>i\<in>set [0..<?ny]. ?T i)" by (rule coverage [OF r])
      then show "e ! k = e' ! k" using a \<open>k < length e\<close> unfolding agree_def by blast
    qed
    then show ?thesis using Inr e' by simp
  qed
qed

lemma length_newPNG [simp]: "length (newPNG w h) = 4 * w * h"
  by (simp add: newPNG_def)

lemma at_number_inTable:
  assumes "length grad = 256"
  shows "(at_number grad a \<noteq> None) = inTable a"
proof (cases a)
  case (Fin x)
  show ?thesis
  proof
    assume "at_number grad a \<noteq> None"
    then have i: "is_integer x" "0 \<le> \<lfloor>x\<rfloor>" "\<lfloor>x\<rfloor> < 256"
      using Fin assms by (auto simp: at_index_def split: if_splits)
    have "x = real (nat \<lfloor>x\<rfloor>)" using i(1,2) by (simp add: is_integer_def)
    moreover have "nat \<lfloor>x\<rfloor> < 256" using i(2,3) by linarith
    ultimately show "inTable a" unfolding inTable_def Fin by auto
  next
    assume "inTable a"
    then obtain k :: nat where k: "k < 256" "x = real k" unfolding inTable_def Fin by auto
    have "at_number grad (Fin (real_of_int (int k))) = Some (grad ! nat (int k))"
      using k(1) assms by (intro at_number_int) simp_all
    then show "at_number grad a \<noteq> None" using k(2) Fin by simp
  qed
qed (simp_all add: inTable_def)

lemma cellColor_throws_iff:
  assumes "length grad = 256"
  shows "(cellColor points width height r mx bnds ex grad bg i j = Inl TypeError)
       = (\<not> inTable (gradientIndex
            (Math_min (cellValue (cellCentre width height r bnds i j) ex points) mx) mx))"
  unfolding at_number_inTable [OF assms, symmetric] cellColor_def Let_def
  by (cases "at_number grad (gradientIndex
        (Math_min (cellValue (cellCentre width height r bnds i j) ex points) mx) mx)") simp_all

lemma cellStep_Inr:
  assumes "length grad = 256"
    and "inTable (gradientIndex (Math_min (cellValue (cellCentre width height r bnds i j) ex points) mx) mx)"
  shows "\<exists>d'. cellStep points width height r mx bnds ex grad bg i j d = Inr d' \<and> length d' = length d"
proof (cases "cellColor points width height r mx bnds ex grad bg i j")
  case (Inl e)
  then have "cellColor points width height r mx bnds ex grad bg i j = Inl TypeError"
    by (cases e) simp
  then show ?thesis using assms cellColor_throws_iff [OF assms(1)] by blast
next
  case (Inr ca)
  then show ?thesis by (cases ca) (simp add: cellStep_def)
qed

lemma cellStep_Inl:
  assumes "length grad = 256"
    and "\<not> inTable (gradientIndex (Math_min (cellValue (cellCentre width height r bnds i j) ex points) mx) mx)"
  shows "\<exists>e. cellStep points width height r mx bnds ex grad bg i j d = Inl e"
proof -
  have "cellColor points width height r mx bnds ex grad bg i j = Inl TypeError"
    using assms cellColor_throws_iff [OF assms(1)] by blast
  then show ?thesis by (simp add: cellStep_def)
qed

text \<open>The loop over the grid returns a buffer when the index of every cell is in the
  table, and throws when the index of some cell is not.\<close>

lemma grid_returns:
  assumes len: "length grad = 256" and r: "0 < r"
    and idx: "\<forall>i j. i * r < height \<and> j * r < width \<longrightarrow>
        inTable (gradientIndex (Math_min (cellValue (cellCentre width height r bnds i j) ex points) mx) mx)"
  shows "\<exists>buf. foldE (\<lambda>i. foldE (cellStep points width height r mx bnds ex grad bg i)
                       [0..<nat \<lceil>real width / real r\<rceil>])
               [0..<nat \<lceil>real height / real r\<rceil>] d = Inr buf \<and> length buf = length d"
proof -
  let ?nx = "nat \<lceil>real width / real r\<rceil>" and ?ny = "nat \<lceil>real height / real r\<rceil>"
  have cell: "\<exists>s'. cellStep points width height r mx bnds ex grad bg i j s = Inr s'
                  \<and> length s' = length d"
    if "i \<in> set [0..<?ny]" "j \<in> set [0..<?nx]" "length s = length d" for i j s
  proof -
    have "i * r < height" "j * r < width"
      using that(1,2) ceil_bound [OF r] by simp_all
    then show ?thesis
      using cellStep_Inr [OF len, of width height r bnds i j ex points mx bg s] idx that(3) by auto
  qed
  have row: "\<exists>s'. foldE (cellStep points width height r mx bnds ex grad bg i) [0..<?nx] s = Inr s'
                  \<and> length s' = length d"
    if "i \<in> set [0..<?ny]" "length s = length d" for i s
    using _ that(2) by (rule foldE_total_on) (rule cell [OF that(1)])
  show ?thesis
    using _ refl by (rule foldE_total_on) (rule row)
qed

lemma grid_throws:
  assumes len: "length grad = 256" and r: "0 < r"
    and idx: "i * r < height \<and> j * r < width
        \<and> \<not> inTable (gradientIndex (Math_min (cellValue (cellCentre width height r bnds i j) ex points) mx) mx)"
  shows "foldE (\<lambda>i. foldE (cellStep points width height r mx bnds ex grad bg i)
                       [0..<nat \<lceil>real width / real r\<rceil>])
               [0..<nat \<lceil>real height / real r\<rceil>] d = Inl TypeError"
proof -
  let ?nx = "nat \<lceil>real width / real r\<rceil>" and ?ny = "nat \<lceil>real height / real r\<rceil>"
  have i: "i \<in> set [0..<?ny]" and j: "j \<in> set [0..<?nx]"
    using idx ceil_bound [OF r] by simp_all
  have row: "\<exists>e. foldE (cellStep points width height r mx bnds ex grad bg i) [0..<?nx] s = Inl e" for s
    using j by (rule foldE_throws) (use cellStep_Inl [OF len] idx in blast)
  have "\<exists>e. foldE (\<lambda>i. foldE (cellStep points width height r mx bnds ex grad bg i) [0..<?nx])
               [0..<?ny] d = Inl e"
    using i by (rule foldE_throws) (rule row)
  then obtain e where "foldE (\<lambda>i. foldE (cellStep points width height r mx bnds ex grad bg i) [0..<?nx])
               [0..<?ny] d = Inl e" by blast
  then show ?thesis by (cases e) simp
qed

text \<open>With a positive cell size, \<open>max > 0\<close>, the exponent omitted or positive and no cell
  fading, both variants run the same cell body over the same grid; the prefill of the
  direct-draw variant is overwritten, the cells covering the image.\<close>

lemma variants_grid:
  assumes tbl: "createGradientLookup (opt_gradient opts) = Inr tbl"
    and cs: "opt_cellSize opts = Some r" and r: "0 < r"
    and ex: "opt_exp opts = None \<or> (\<exists>e. opt_exp opts = Some e \<and> Fin 0 < e)"
    and mx: "Fin 0 < orDefault (opt_max opts) (Fin 1)"
    and near: "\<forall>i j. i * r < opt_height opts \<and> j * r < opt_width opts \<longrightarrow>
        cellMinDist (cellCentre (opt_width opts) (opt_height opts) r (opt_bounds opts) i j)
          (orDefault (opt_exp opts) (Fin 2)) points \<le> Fin 100000"
  shows "interpolateIDW points opts =
           Some (foldE (\<lambda>i. foldE (cellStep points (opt_width opts) (opt_height opts) r
                                     (orDefault (opt_max opts) (Fin 1)) (opt_bounds opts)
                                     (orDefault (opt_exp opts) (Fin 2)) tbl (tbl ! 0) i)
                              [0..<nat \<lceil>real (opt_width opts) / real r\<rceil>])
                       [0..<nat \<lceil>real (opt_height opts) / real r\<rceil>]
                       (prefilled (opt_width opts) (opt_height opts) (tbl ! 0)))"
    and "interpolateIDW_directdraw points opts =
           Some (foldE (\<lambda>i. foldE (cellStep points (opt_width opts) (opt_height opts) r
                                     (orDefault (opt_max opts) (Fin 1)) (opt_bounds opts)
                                     (orDefault (opt_exp opts) (Fin 2)) tbl (tbl ! 0) i)
                              [0..<nat \<lceil>real (opt_width opts) / real r\<rceil>])
                       [0..<nat \<lceil>real (opt_height opts) / real r\<rceil>]
                       (prefilled (opt_width opts) (opt_height opts) (tbl ! 0)))"
proof -
  have ti: "length tbl = 256"
      "\<forall>c\<in>set tbl. roundedColour c \<and> (finiteColour (tbl ! 0) \<or> c = tbl ! 0)"
    using table_blends [OF tbl] by simp_all
  have bg: "at_index tbl 0 = Some (tbl ! 0)" using ti(1) by (simp add: at_index_def)
  let ?w = "opt_width opts" and ?h = "opt_height opts"
  let ?mx = "orDefault (opt_max opts) (Fin 1)" and ?ex = "orDefault (opt_exp opts) (Fin 2)"
  let ?step = "cellStep points ?w ?h r ?mx (opt_bounds opts) ?ex tbl (tbl ! 0)"
  let ?nx = "nat \<lceil>real ?w / real r\<rceil>" and ?ny = "nat \<lceil>real ?h / real r\<rceil>"
  have r10: "0 < orDefault (opt_cellSize opts) 10" using cs r by simp
  show dd: "interpolateIDW_directdraw points opts =
      Some (foldE (\<lambda>i. foldE (?step i) [0..<?nx]) [0..<?ny] (prefilled ?w ?h (tbl ! 0)))"
    using directdraw_unfold [OF tbl bg r10, of points] by (simp add: cs)
  have cell: "fineCell points ?w ?h r ?mx (opt_bounds opts) (opt_exp opts) tbl (i * r) (j * r) s
      = Some (?step i j s)" if "i * r < ?h" "j * r < ?w" for i j s
    using r that(2,1) mx ex _ ti(2) by (rule fineCell_step) (use near that in blast)
  have row: "forLoop 0 (Fin (real ?w)) r
        (fineCell points ?w ?h r ?mx (opt_bounds opts) (opt_exp opts) tbl (i * r)) s
      = Some (foldE (?step i) [0..<?nx] s)" if "i * r < ?h" for i s
    using r by (rule forLoop_stride) (rule cell [OF that])
  have "forLoop 0 (Fin (real ?h)) r
        (\<lambda>y. forLoop 0 (Fin (real ?w)) r
           (fineCell points ?w ?h r ?mx (opt_bounds opts) (opt_exp opts) tbl y))
        (newPNG ?w ?h)
      = Some (foldE (\<lambda>i. foldE (?step i) [0..<?nx]) [0..<?ny] (newPNG ?w ?h))"
    using r by (rule forLoop_stride) (rule row)
  then have fine: "interpolateIDW points opts =
      Some (foldE (\<lambda>i. foldE (?step i) [0..<?nx]) [0..<?ny] (newPNG ?w ?h))"
    by (simp add: interpolateIDW_def Let_def tbl cs)
  have "foldE (\<lambda>i. foldE (?step i) [0..<?nx]) [0..<?ny] (newPNG ?w ?h)
      = foldE (\<lambda>i. foldE (?step i) [0..<?nx]) [0..<?ny] (prefilled ?w ?h (tbl ! 0))"
    using r by (rule grid_independent) simp_all
  then show "interpolateIDW points opts =
      Some (foldE (\<lambda>i. foldE (?step i) [0..<?nx]) [0..<?ny] (prefilled ?w ?h (tbl ! 0)))"
    using fine by simp
qed

section \<open>The properties\<close>

subsection \<open>C1: the top row of the image\<close>

text \<open>
  C1. The specification has the top edge \<open>y = 0\<close> of the image at the latitude \<open>maxLat\<close>
  and the bottom edge \<open>y = height\<close> at \<open>minLat\<close> (north-up). \<open>pixelToLatLng\<close> interpolates
  from \<open>minMerc\<close> at \<open>y = 0\<close>, so it does the opposite: for the box from latitude 0 to
  latitude 10 and a 100 by 100 image, the top left pixel has latitude 0, which is
  \<open>minLat\<close>, and the bottom edge has latitude 10, which is \<open>maxLat\<close>.
\<close>

theorem top_row_maps_to_minLat:
  "pixelToLatLng (Fin 0) (Fin 0) (Fin 100) (Fin 100)
       \<lparr>minLat = Fin 0, minLng = Fin 0, maxLat = Fin 10, maxLng = Fin 10\<rparr>
     = \<lparr>lat = Fin 0, lng = Fin 0\<rparr>
   \<and> pixelToLatLng (Fin 0) (Fin 100) (Fin 100) (Fin 100)
       \<lparr>minLat = Fin 0, minLng = Fin 0, maxLat = Fin 10, maxLng = Fin 10\<rparr>
     = \<lparr>lat = Fin 10, lng = Fin 0\<rparr>"
  using mercToLat_latToMerc [of 0] mercToLat_latToMerc [of 10]
  by (simp add: pixelToLatLng_def Let_def latToMerc_Fin)

subsection \<open>C2: the gradient table\<close>

text \<open>
  C2. The specification has entry 255 of the table equal to the colour of the highest
  stop, and every component within 0 to 255, for every gradient with stops in [0, 1].
  When no stop reaches \<open>t\<close>, \<open>createGradientLookup\<close> moves \<open>idx\<close> to the last stop
  but then interpolates with \<open>f > 1\<close>: for the gradient black at 0, white at 0.5, entry 255
  is \<open>[510, 510, 510]\<close>, not white. (When the highest stop is 1 nothing lies beyond it and
  the table is as specified: \<open>gradient_table_when_top_stop_is_1\<close>.)
\<close>

theorem last_entry_overshoots_last_stop:
  "\<exists>tbl. createGradientLookup [(0, black), (1 / 2, white)] = Inr tbl \<and> length tbl = 256
      \<and> tbl ! 255 = (Fin 510, Fin 510, Fin 510)"
proof -
  obtain tbl where t: "createGradientLookup [(0, black), (1 / 2, white)] = Inr tbl"
      "length tbl = 256"
    and e: "\<forall>i<256. lookupEntry (sort (map fst [(0::real, black), (1 / 2, white)]))
             (map (colorOf [(0, black), (1 / 2, white)])
                (sort (map fst [(0::real, black), (1 / 2, white)]))) i
           = Inr (tbl ! i)"
    using createGradientLookup_ok [of "[(0, black), (1 / 2, white)]"] by auto
  have "lookupEntry (sort (map fst [(0::real, black), (1 / 2, white)]))
             (map (colorOf [(0, black), (1 / 2, white)])
                (sort (map fst [(0::real, black), (1 / 2, white)]))) 255
        = Inr (Fin 510, Fin 510, Fin 510)"
    by (simp add: lookupEntry_def colorOf_def at_index_def black_def white_def Let_def)
  with e have "tbl ! 255 = (Fin 510, Fin 510, Fin 510)" by simp
  with t show ?thesis by simp
qed

subsection \<open>C3: an empty list of sample points\<close>

text \<open>
  C3, as stated: with an empty list of sample points the operation fails with a structured
  error. It does not: for a 1 by 1 image with \<open>max = 0\<close> it returns an image, one
  pixel of the background colour with alpha 0.
\<close>

theorem empty_points_returns_image:
  "interpolateIDW_directdraw []
     ((plainOptions 1 1)\<lparr>opt_cellSize := Some 1, opt_max := Some (Fin 0)\<rparr>)
   = Some (Inr [0, 0, 0, 0])"
proof -
  obtain tbl where t: "createGradientLookup [(0, black), (1, white)] = Inr tbl"
      "length tbl = 256" "tbl ! 0 = (Fin 0, Fin 0, Fin 0)"
    using grad_bw by auto
  have bg: "at_index tbl 0 = Some (Fin 0, Fin 0, Fin 0)"
    using t by (simp add: at_index_def)
  have cc: "cellColor [] w h r (Fin 0) box (Fin 2) tbl (Fin 0, Fin 0, Fin 0) i j
      = Inr ((Fin 0, Fin 0, Fin 0), Fin 0)" for w h r i j
    using bg by (simp add: cellColor_empty_points strict_eq_def blend_def)
  show ?thesis
    by (subst directdraw_unfold [where grad = tbl and bg = "(Fin 0, Fin 0, Fin 0)"])
       (simp_all add: plainOptions_def t bg cellStep_def cc paintCell_def prefilled_def
          newPNG_def writePixel_def eval_nat_numeral)
qed

text \<open>
  C3, amended: the operation has no error for an empty list of sample points. For a
  gradient with at least one stop and a positive width, height and cell size, every cell's
  value is \<open>0 / 0 = NaN\<close>; if \<open>max\<close> is anything but 0 the gradient index is \<open>NaN\<close>, the
  table lookup is \<open>undefined\<close> and the first cell throws a \<open>TypeError\<close>; if \<open>max\<close> is 0
  the operation returns an image.
\<close>

theorem empty_points_no_structured_error:
  assumes g: "opt_gradient opts \<noteq> []"
    and w: "0 < opt_width opts" and h: "0 < opt_height opts"
    and r: "opt_cellSize opts \<noteq> Some 0"
  shows "(opt_max opts = Some (Fin 0) \<longrightarrow>
            (\<exists>img. interpolateIDW_directdraw [] opts = Some (Inr img)
                   \<and> length img = 4 * opt_width opts * opt_height opts))
       \<and> (opt_max opts \<noteq> Some (Fin 0) \<longrightarrow>
            interpolateIDW_directdraw [] opts = Some (Inl TypeError))"
proof -
  obtain tbl where t: "createGradientLookup (opt_gradient opts) = Inr tbl" "length tbl = 256"
    using createGradientLookup_ok [OF g] by auto
  have bg: "at_index tbl 0 = Some (tbl ! 0)" using t(2) by (simp add: at_index_def)
  have a0: "at_number tbl (Fin 0) = Some (tbl ! 0)" using bg by simp
  define rr where "rr = orDefault (opt_cellSize opts) 10"
  have r0: "0 < rr" using r unfolding rr_def by (cases "opt_cellSize opts") simp_all
  note u = directdraw_unfold [OF t(1) bg r0 [unfolded rr_def], of "[]", folded rr_def]
  let ?n = "4 * opt_width opts * opt_height opts"
  show ?thesis
  proof (intro conjI impI)
    assume m: "opt_max opts = Some (Fin 0)"
    have step: "\<exists>s'. cellStep [] (opt_width opts) (opt_height opts) rr (Fin 0) bnds ex tbl
                       (tbl ! 0) i j s = Inr s' \<and> length s' = ?n"
      if "length s = ?n" for i j s bnds ex
      using that
      by (simp add: cellStep_def cellColor_empty_points a0 strict_eq_def del: at_number.simps)
    have row: "\<exists>s'. foldE (cellStep [] (opt_width opts) (opt_height opts) rr (Fin 0) bnds ex
                             tbl (tbl ! 0) i) js s = Inr s' \<and> length s' = ?n"
      if "length s = ?n" for i js s bnds ex
      using step that by (rule foldE_total)
    have "\<exists>s'. foldE (\<lambda>i. foldE (cellStep [] (opt_width opts) (opt_height opts) rr (Fin 0)
                                    bnds ex tbl (tbl ! 0) i) js) is
                   (prefilled (opt_width opts) (opt_height opts) (tbl ! 0)) = Inr s'
                  \<and> length s' = ?n" for "is" js bnds ex
      by (rule foldE_total [where P = "\<lambda>s. length s = ?n"]) (use row in simp_all)
    then show "\<exists>img. interpolateIDW_directdraw [] opts = Some (Inr img) \<and> length img = ?n"
      unfolding u by (simp add: m)
  next
    assume m: "opt_max opts \<noteq> Some (Fin 0)"
    have ne: "\<not> strict_eq (orDefault (opt_max opts) (Fin 1)) (Fin 0)"
      using m by (cases "opt_max opts") (simp_all add: strict_eq_def)
    have "cellStep [] (opt_width opts) (opt_height opts) rr (orDefault (opt_max opts) (Fin 1))
            bnds ex tbl (tbl ! 0) 0 0 s = Inl TypeError" for bnds ex s
      using ne by (simp add: cellStep_def cellColor_empty_points)
    then show "interpolateIDW_directdraw [] opts = Some (Inl TypeError)"
      unfolding u using ncell_pos [OF r0 w] ncell_pos [OF r0 h]
      by (simp add: foldE_first_throws)
  qed
qed

theorem empty_points_no_structured_error_witness:
  "(\<exists>img. interpolateIDW_directdraw [] ((plainOptions 1 1)\<lparr>opt_max := Some (Fin 0)\<rparr>)
            = Some (Inr img) \<and> length img = 4)
   \<and> interpolateIDW_directdraw [] (plainOptions 1 1) = Some (Inl TypeError)"
  using empty_points_no_structured_error [of "(plainOptions 1 1)\<lparr>opt_max := Some (Fin 0)\<rparr>"]
    empty_points_no_structured_error [of "plainOptions 1 1"]
  by (simp add: plainOptions_def)

subsection \<open>C4: the weights\<close>




subsection \<open>C5: the gradient index\<close>

text \<open>
  C5, as stated: the gradient index is clamped to 0..255, so the table lookup is in bounds
  for all sample values, negative ones too. It is not: with one sample of value \<open>-1\<close> and
  the default \<open>max = 1\<close> the index of the cell is \<open>-255\<close>, and the render throws a
  \<open>TypeError\<close>.
\<close>

theorem negative_value_index_out_of_bounds:
  "gradientIndex
     (Math_min (cellValue (cellCentre 5 5 10 box 0 0) (Fin 2) [(Fin 0, Fin 0, Fin (- 1))]) (Fin 1))
     (Fin 1) = Fin (- 255)
   \<and> interpolateIDW_directdraw [(Fin 0, Fin 0, Fin (- 1))] (plainOptions 5 5)
     = Some (Inl TypeError)"
proof -
  obtain tbl where t: "createGradientLookup [(0, black), (1, white)] = Inr tbl"
      "length tbl = 256" "tbl ! 0 = (Fin 0, Fin 0, Fin 0)"
    using grad_bw by auto
  have bg: "at_index tbl 0 = Some (Fin 0, Fin 0, Fin 0)"
    using t by (simp add: at_index_def)
  have v: "cellValue (cellCentre 5 5 10 box 0 0) (Fin 2) [(Fin 0, Fin 0, Fin (- 1))] = Fin (- 1)"
    by (rule single_point_value) simp
  have idx: "gradientIndex (Math_min (Fin (- 1)) (Fin 1)) (Fin 1) = Fin (- 255)"
    by (simp add: gradientIndex_def strict_eq_def)
  have none: "at_number tbl (Fin (- 255)) = None"
    using at_number.simps(1) [of tbl "of_int (- 255)"] by (simp add: at_index_def)
  have cc: "cellColor [(Fin 0, Fin 0, Fin (- 1))] 5 5 10 (Fin 1) box (Fin 2) tbl
              (Fin 0, Fin 0, Fin 0) 0 0 = Inl TypeError"
    unfolding cellColor_def Let_def v idx none by simp
  have run: "interpolateIDW_directdraw [(Fin 0, Fin 0, Fin (- 1))] (plainOptions 5 5)
      = Some (Inl TypeError)"
    by (rule directdraw_first_cell_throws [where grad = tbl and bg = "(Fin 0, Fin 0, Fin 0)"])
       (simp_all add: plainOptions_def t bg cc)
  show ?thesis unfolding v using idx run by simp
qed

text \<open>
  C5, amended: for every cell the gradient index is 0 when \<open>max\<close> is 0, and otherwise
  \<open>round((min(value, max) / max) * 255)\<close> with no clamp from below. For \<open>max > 0\<close> and a
  value that is not negative it lies in 0..255 and the lookup into the 256-entry table is
  in bounds; for a negative value whose index rounds below 0 the lookup is \<open>undefined\<close>.
\<close>

theorem gradient_index_bounds:
  assumes "length grad = 256"
    and "v = cellValue (cellCentre width height r bnds i j) ex points"
  shows "(strict_eq mx (Fin 0) \<longrightarrow>
            gradientIndex (Math_min v mx) mx = Fin 0
            \<and> at_number grad (gradientIndex (Math_min v mx) mx) = Some (grad ! 0))
       \<and> (mx = Fin m \<and> 0 < m \<and> v = Fin x \<and> 0 \<le> x \<longrightarrow>
            (\<exists>k. gradientIndex (Math_min v mx) mx = Fin (of_int k) \<and> 0 \<le> k \<and> k \<le> 255
                 \<and> k = round (min x m / m * 255)
                 \<and> at_number grad (gradientIndex (Math_min v mx) mx) = Some (grad ! nat k)))
       \<and> (mx = Fin m \<and> 0 < m \<and> v = Fin x \<and> round (x / m * 255) < 0 \<longrightarrow>
            at_number grad (gradientIndex (Math_min v mx) mx) = None)"
proof -
  have A: "gradientIndex (Math_min v mx) mx = Fin 0
      \<and> at_number grad (gradientIndex (Math_min v mx) mx) = Some (grad ! 0)"
    if z: "strict_eq mx (Fin 0)"
    using z assms(1) by (simp add: gradientIndex_def at_index_def)
  have B: "\<exists>k. gradientIndex (Math_min v mx) mx = Fin (of_int k) \<and> 0 \<le> k \<and> k \<le> 255
                 \<and> k = round (min x m / m * 255)
                 \<and> at_number grad (gradientIndex (Math_min v mx) mx) = Some (grad ! nat k)"
    if a: "mx = Fin m \<and> 0 < m \<and> v = Fin x \<and> 0 \<le> x"
  proof -
    define k where "k = round (min x m / m * 255)"
    have idx: "gradientIndex (Math_min v mx) mx = Fin (of_int k)"
      using a by (simp add: gradientIndex_def strict_eq_def k_def)
    obtain k' where k': "gradientIndex (Math_min (Fin x) (Fin m)) (Fin m) = Fin (of_int k')"
        "0 \<le> k'" "k' \<le> 255"
      using gradientIndex_in_range [of m x] a by auto
    have "k' = k" using idx k'(1) a by simp
    then have rng: "0 \<le> k" "k \<le> 255" using k' by simp_all
    then have "at_number grad (Fin (of_int k)) = Some (grad ! nat k)"
      using assms(1) by (intro at_number_int) simp_all
    then show ?thesis
      using idx rng k_def by auto
  qed
  have C: "at_number grad (gradientIndex (Math_min v mx) mx) = None"
    if a: "mx = Fin m \<and> 0 < m \<and> v = Fin x \<and> round (x / m * 255) < 0"
  proof -
    have "x / m * 255 < 0"
    proof (rule ccontr)
      assume "\<not> x / m * 255 < 0"
      then have "0 \<le> x / m * 255" by simp
      then have "0 \<le> round (x / m * 255)" by (simp add: round_def)
      then show False using a by simp
    qed
    then have "x < 0" using a by (simp add: divide_less_0_iff)
    then have mn: "min x m = x" using a by simp
    have idx: "gradientIndex (Math_min v mx) mx = Fin (of_int (round (x / m * 255)))"
      using a by (simp add: gradientIndex_def strict_eq_def mn)
    show ?thesis
      unfolding idx using a by (simp add: at_index_def)
  qed
  show ?thesis using A B C by blast
qed

theorem gradient_index_bounds_witness:
  "gradientIndex
     (Math_min (cellValue (cellCentre 5 5 10 box 0 0) (Fin 2) [(Fin 0, Fin 0, Fin 1)]) (Fin 0))
     (Fin 0) = Fin 0
   \<and> gradientIndex
       (Math_min (cellValue (cellCentre 5 5 10 box 0 0) (Fin 2) [(Fin 0, Fin 0, Fin 1)]) (Fin 1))
       (Fin 1) = Fin 255
   \<and> at_number (replicate 256 (Fin 0, Fin 0, Fin 0))
       (gradientIndex
          (Math_min (cellValue (cellCentre 5 5 10 box 0 0) (Fin 2) [(Fin 0, Fin 0, Fin (- 1))])
             (Fin 1))
          (Fin 1)) = None"
proof -
  let ?grad = "replicate 256 (Fin 0, Fin 0, Fin 0) :: colour list"
  let ?c = "cellCentre 5 5 10 box 0 0"
  have len: "length ?grad = 256" by simp
  have v1: "cellValue ?c (Fin 2) [(Fin 0, Fin 0, Fin 1)] = Fin 1"
    by (rule single_point_value) simp
  have v2: "cellValue ?c (Fin 2) [(Fin 0, Fin 0, Fin (- 1))] = Fin (- 1)"
    by (rule single_point_value) simp
  have z: "strict_eq (Fin 0) (Fin 0)" by (simp add: strict_eq_def)
  have a: "gradientIndex (Math_min (cellValue ?c (Fin 2) [(Fin 0, Fin 0, Fin 1)]) (Fin 0)) (Fin 0)
      = Fin 0"
    using gradient_index_bounds [OF len refl, of "Fin 0" 5 5 10 box 0 0 "Fin 2"
        "[(Fin 0, Fin 0, Fin 1)]"] z
    by blast
  have "\<exists>k. gradientIndex (Math_min (cellValue ?c (Fin 2) [(Fin 0, Fin 0, Fin 1)]) (Fin 1)) (Fin 1)
               = Fin (of_int k) \<and> k = round (min 1 1 / 1 * 255 :: real)"
    using gradient_index_bounds [OF len refl, of "Fin 1" 5 5 10 box 0 0 "Fin 2"
        "[(Fin 0, Fin 0, Fin 1)]" 1 1] v1
    by auto
  then have b: "gradientIndex (Math_min (cellValue ?c (Fin 2) [(Fin 0, Fin 0, Fin 1)]) (Fin 1))
      (Fin 1) = Fin 255"
    by auto
  have "round (- 1 / 1 * 255 :: real) < 0" by simp
  then have c: "at_number ?grad
       (gradientIndex (Math_min (cellValue ?c (Fin 2) [(Fin 0, Fin 0, Fin (- 1))]) (Fin 1))
          (Fin 1)) = None"
    using gradient_index_bounds [OF len refl, of "Fin 1" 5 5 10 box 0 0 "Fin 2"
        "[(Fin 0, Fin 0, Fin (- 1))]" 1 "- 1"] v2
    by simp
  show ?thesis using a b c by blast
qed

subsection \<open>C6: the fade distance\<close>

text \<open>
  C6, as stated: alpha is computed from the configured \<open>fadeDistance\<close>. It is not: the
  distance is the constant \<open>FADE_DISTANCE = 100000\<close> and no option is read. With
  \<open>fadeDistance = 30000\<close> in the options and a sample about 66.7 km from the only cell,
  the stated alpha is below 1, and the program's alpha is 1: the pixel is written with
  alpha 255.
\<close>

theorem configured_fade_distance_ignored:
  "orDefault (opt_fadeDistance
       ((plainOptions 1 1)\<lparr>opt_cellSize := Some 2, opt_fadeDistance := Some (Fin 30000)\<rparr>))
     (Fin 100000) = Fin 30000
   \<and> claimedAlpha (Fin 30000)
       (cellMinDist (cellCentre 1 1 2 box 0 0) (Fin 2) [(Fin 0, Fin (3 / 5), Fin 1)]) < Fin 1
   \<and> featherAlpha
       (cellMinDist (cellCentre 1 1 2 box 0 0) (Fin 2) [(Fin 0, Fin (3 / 5), Fin 1)]) = Fin 1
   \<and> interpolateIDW_directdraw [(Fin 0, Fin (3 / 5), Fin 1)]
       ((plainOptions 1 1)\<lparr>opt_cellSize := Some 2, opt_fadeDistance := Some (Fin 30000)\<rparr>)
     = Some (Inr [255, 255, 255, 255])"
proof -
  define d :: real where "d = 6371000 * (3 / 5 * pi / 180)"
  note far = far_sample [folded d_def]
  note md = far(1) and lo = far(2) and hi = far(3)
  have fa: "featherAlpha (Fin d) = Fin 1"
    using hi by (simp add: featherAlpha_Fin)
  have ca: "claimedAlpha (Fin 30000) (Fin d) < Fin 1"
    using lo by (simp add: claimedAlpha_def)
  note run = sample_run [of "Some (Fin 30000)"]
  show ?thesis
    unfolding md using fa ca run by (simp add: plainOptions_def)
qed

text \<open>
  C6, amended: the fade distance is the fixed constant 100000 metres, not a configured
  value. For every cell the alpha is that function of the cell's minimum distance: 1 up
  to 100000, and \<open>max(0, 1 - (minDist - 100000) / 100000)\<close> beyond (also 1 when the minimum
  distance is \<open>NaN\<close>); it lies in [0, 1] and does not increase as the minimum distance
  grows beyond 100000.
\<close>

theorem feather_alpha_fixed_distance:
  "(cellColor points width height r mx bnds ex grad bg i j = Inr (color, alpha) \<longrightarrow>
      alpha = featherAlpha (cellMinDist (cellCentre width height r bnds i j) ex points))
   \<and> (m \<noteq> NaN \<longrightarrow> featherAlpha m = claimedAlpha (Fin 100000) m)
   \<and> featherAlpha NaN = Fin 1
   \<and> (\<exists>a. featherAlpha m = Fin a \<and> 0 \<le> a \<and> a \<le> 1)
   \<and> (m1 \<le> m2 \<and> Fin 100000 < m1 \<longrightarrow> featherAlpha m2 \<le> featherAlpha m1)"
proof -
  have A: "alpha = featherAlpha (cellMinDist (cellCentre width height r bnds i j) ex points)"
    if "cellColor points width height r mx bnds ex grad bg i j = Inr (color, alpha)"
    using that by (auto simp: cellColor_def Let_def split: option.splits)
  have B: "featherAlpha m = claimedAlpha (Fin 100000) m" if "m \<noteq> NaN"
    using that by (cases m) (auto simp: featherAlpha_def claimedAlpha_def FADE_DISTANCE_def)
  have C: "featherAlpha NaN = Fin 1"
    by (simp add: featherAlpha_def FADE_DISTANCE_def)
  have D: "featherAlpha m2 \<le> featherAlpha m1" if "m1 \<le> m2 \<and> Fin 100000 < m1"
    using that featherAlpha_mono [of m1 m2] by (simp add: FADE_DISTANCE_def)
  show ?thesis using A B C D featherAlpha_range [of m] by blast
qed

theorem feather_alpha_fixed_distance_witness:
  "cellColor [(Fin 0, Fin (3 / 5), Fin 1)] 1 1 2 (Fin 1) box (Fin 2)
       (replicate 256 (Fin 9, Fin 9, Fin 9)) (Fin 0, Fin 0, Fin 0) 0 0
     = Inr ((Fin 9, Fin 9, Fin 9), Fin 1)
   \<and> Fin 1 = featherAlpha
       (cellMinDist (cellCentre 1 1 2 box 0 0) (Fin 2) [(Fin 0, Fin (3 / 5), Fin 1)])
   \<and> Fin 130000 \<noteq> NaN \<and> Fin 130000 \<le> Fin 180000 \<and> Fin 100000 < Fin 130000
   \<and> featherAlpha (Fin 130000) = claimedAlpha (Fin 100000) (Fin 130000)
   \<and> featherAlpha (Fin 180000) \<le> featherAlpha (Fin 130000)"
proof -
  define d :: real where "d = 6371000 * (3 / 5 * pi / 180)"
  note far = far_sample [folded d_def]
  have fa: "featherAlpha (Fin d) = Fin 1"
    using far(3) by (simp add: featherAlpha_Fin)
  have v: "cellValue (cellCentre 1 1 2 box 0 0) (Fin 2) [(Fin 0, Fin (3 / 5), Fin 1)] = Fin 1"
    by (rule single_point_value) simp
  have idx: "gradientIndex (Math_min (Fin 1) (Fin 1)) (Fin 1) = Fin 255"
    by (simp add: gradientIndex_def strict_eq_def)
  have top: "at_number (replicate 256 (Fin 9, Fin 9, Fin 9)) (Fin 255) = Some (Fin 9, Fin 9, Fin 9)"
    using at_number_int [of 255 "replicate 256 (Fin 9, Fin 9, Fin 9)"] by simp
  have cc: "cellColor [(Fin 0, Fin (3 / 5), Fin 1)] 1 1 2 (Fin 1) box (Fin 2)
       (replicate 256 (Fin 9, Fin 9, Fin 9)) (Fin 0, Fin 0, Fin 0) 0 0
     = Inr ((Fin 9, Fin 9, Fin 9), Fin 1)"
    unfolding cellColor_def Let_def v far(1) idx top fa by (simp add: blend_def)
  note f = feather_alpha_fixed_distance [of "[(Fin 0, Fin (3 / 5), Fin 1)]" 1 1 2 "Fin 1" box
      "Fin 2" "replicate 256 (Fin 9, Fin 9, Fin 9)" "(Fin 0, Fin 0, Fin 0)" 0 0
      "(Fin 9, Fin 9, Fin 9)" "Fin 1" "Fin 130000" "Fin 130000" "Fin 180000"]
  have c: "Fin 1 = featherAlpha
       (cellMinDist (cellCentre 1 1 2 box 0 0) (Fin 2) [(Fin 0, Fin (3 / 5), Fin 1)])"
    by (rule f [THEN conjunct1, THEN mp]) (rule cc)
  have a: "featherAlpha (Fin 130000) = claimedAlpha (Fin 100000) (Fin 130000)"
    by (rule f [THEN conjunct2, THEN conjunct1, THEN mp]) simp
  have b: "featherAlpha (Fin 180000) \<le> featherAlpha (Fin 130000)"
    by (rule f [THEN conjunct2, THEN conjunct2, THEN conjunct2, THEN conjunct2, THEN mp]) simp
  show ?thesis using cc c a b by simp
qed

subsection \<open>C7: a single sample point\<close>




subsection \<open>C10: the value as a convex combination\<close>




subsection \<open>C8: the two variants\<close>




end
